theory Spec2Isabelle
  imports Complex_Main
begin

section \<open>The game: \<open>tictactoe.py\<close>\<close>

text \<open>
  \<open>class Player(Enum)\<close> with \<open>X = 1\<close>, \<open>O = -1\<close>, \<open>EMPTY = 0\<close>. The members are written
  \<open>Player_X\<close>, \<open>Player_O\<close>, \<open>Player_EMPTY\<close> (Python's \<open>Player.X\<close> and so on);
  \<open>player_value\<close> is the \<open>.value\<close> attribute.
\<close>

datatype Player = Player_X | Player_O | Player_EMPTY

fun player_value :: "Player \<Rightarrow> int" where
  "player_value Player_X = 1"
| "player_value Player_O = -1"
| "player_value Player_EMPTY = 0"

text \<open>
  The board is a 3x3 numpy array of ints. It is kept flattened in row-major order
  (what \<open>board.flatten()\<close> gives), so that \<open>board[row, col]\<close> is the element at
  index \<open>3 * row + col\<close>. Coordinates are Python ints.
\<close>

type_synonym board = "int list"

definition cell :: "board \<Rightarrow> int \<Rightarrow> int \<Rightarrow> int" where
  "cell b row col = b ! nat (3 * row + col)"

definition set_cell :: "board \<Rightarrow> int \<Rightarrow> int \<Rightarrow> int \<Rightarrow> board" where
  "set_cell b row col v = b[nat (3 * row + col) := v]"

record TicTacToe =
  board :: board
  current_player :: Player
  game_over :: bool
  winner :: "Player option"
  move_history :: "(int \<times> int \<times> Player) list"

text \<open>\<open>TicTacToe.__init__\<close>: \<open>np.zeros((3, 3))\<close>, X to move, not over, no winner.\<close>

definition TicTacToe_init :: TicTacToe where
  "TicTacToe_init =
     \<lparr> board = [0, 0, 0, 0, 0, 0, 0, 0, 0],
       current_player = Player_X,
       game_over = False,
       winner = None,
       move_history = [] \<rparr>"

text \<open>\<open>range(3)\<close>.\<close>

definition range3 :: "int list" where
  "range3 = [0, 1, 2]"

text \<open>
  \<open>get_valid_moves\<close>: the two nested loops over \<open>range(3)\<close>, appending \<open>(row, col)\<close>
  where the cell equals \<open>Player.EMPTY.value\<close>. The game-over flag is not consulted.
\<close>

definition get_valid_moves :: "TicTacToe \<Rightarrow> (int \<times> int) list" where
  "get_valid_moves s =
     concat (map (\<lambda>row.
       concat (map (\<lambda>col.
         if cell (board s) row col = player_value Player_EMPTY then [(row, col)] else [])
       range3)) range3)"

text \<open>\<open>is_valid_move\<close>: the three checks in the order of the source.\<close>

definition is_valid_move :: "TicTacToe \<Rightarrow> int \<Rightarrow> int \<Rightarrow> bool" where
  "is_valid_move s row col =
     (if game_over s then False
      else if \<not> (0 \<le> row \<and> row < 3 \<and> 0 \<le> col \<and> col < 3) then False
      else cell (board s) row col = player_value Player_EMPTY)"

text \<open>The sums that \<open>_check_game_over\<close> inspects.\<close>

definition row_sum :: "board \<Rightarrow> int \<Rightarrow> int" where
  "row_sum b row = cell b row 0 + cell b row 1 + cell b row 2"

definition col_sum :: "board \<Rightarrow> int \<Rightarrow> int" where
  "col_sum b col = cell b 0 col + cell b 1 col + cell b 2 col"

definition main_diag_sum :: "board \<Rightarrow> int" where
  "main_diag_sum b = cell b 0 0 + cell b 1 1 + cell b 2 2"

definition anti_diag_sum :: "board \<Rightarrow> int" where
  "anti_diag_sum b = cell b 0 2 + cell b 1 1 + cell b 2 0"

text \<open>The reward returned once a winner has been stored: \<open>1 if self.winner == Player.X else -1\<close>.\<close>

definition win_reward :: "Player \<Rightarrow> int" where
  "win_reward w = (if w = Player_X then 1 else -1)"

definition declare_winner :: "TicTacToe \<Rightarrow> Player \<Rightarrow> int option \<times> TicTacToe" where
  "declare_winner s w = (Some (win_reward w), s\<lparr>game_over := True, winner := Some w\<rparr>)"

text \<open>
  \<open>_check_game_over\<close>: rows, then columns, then the main diagonal, then the
  anti-diagonal, then the draw test; the first test that fires sets \<open>game_over\<close> and
  \<open>winner\<close> and returns the reward. Otherwise the state is untouched and the
  result is \<open>None\<close>.
\<close>

definition check_game_over :: "TicTacToe \<Rightarrow> int option \<times> TicTacToe" where
  "check_game_over s =
     (let b = board s in
      case find (\<lambda>row. \<bar>row_sum b row\<bar> = 3) range3 of
        Some row \<Rightarrow> declare_winner s (if cell b row 0 = 1 then Player_X else Player_O)
      | None \<Rightarrow>
     (case find (\<lambda>col. \<bar>col_sum b col\<bar> = 3) range3 of
        Some col \<Rightarrow> declare_winner s (if cell b 0 col = 1 then Player_X else Player_O)
      | None \<Rightarrow>
        if \<bar>main_diag_sum b\<bar> = 3
        then declare_winner s (if main_diag_sum b = 3 then Player_X else Player_O)
        else if \<bar>anti_diag_sum b\<bar> = 3
        then declare_winner s (if anti_diag_sum b = 3 then Player_X else Player_O)
        else if length (get_valid_moves s) = 0
        then (Some 0, s\<lparr>game_over := True, winner := None\<rparr>)
        else (None, s)))"

text \<open>
  \<open>make_move\<close> returns \<open>(success, reward)\<close> and mutates the game; the model returns
  that pair together with the game after the call.
\<close>

definition make_move :: "TicTacToe \<Rightarrow> int \<Rightarrow> int \<Rightarrow> (bool \<times> int option) \<times> TicTacToe" where
  "make_move s row col =
     (if \<not> is_valid_move s row col then ((False, None), s)
      else
        let s1 = s\<lparr> board := set_cell (board s) row col (player_value (current_player s)),
                    move_history := move_history s @ [(row, col, current_player s)] \<rparr>;
            (reward, s2) = check_game_over s1;
            s3 = (if \<not> game_over s2
                  then s2\<lparr> current_player :=
                             (if current_player s2 = Player_X then Player_O else Player_X) \<rparr>
                  else s2)
        in ((True, reward), s3))"

definition is_game_over :: "TicTacToe \<Rightarrow> bool" where
  "is_game_over s = game_over s"

definition get_winner :: "TicTacToe \<Rightarrow> Player option" where
  "get_winner s = winner s"

text \<open>
  \<open>get_state_hash\<close> is \<open>str(self.board.flatten())\<close>; \<open>__eq__\<close> and \<open>__hash__\<close> compare
  that string. The string of a nine-element int array determines the array, so the
  flattened board itself stands for the string.
\<close>

definition get_state_hash :: "TicTacToe \<Rightarrow> board" where
  "get_state_hash s = board s"

text \<open>\<open>copy\<close>: a new game with every field copied.\<close>

definition copy :: "TicTacToe \<Rightarrow> TicTacToe" where
  "copy s =
     \<lparr> board = board s,
       current_player = current_player s,
       game_over = game_over s,
       winner = winner s,
       move_history = move_history s \<rparr>"


section \<open>Python floats\<close>

text \<open>
  The numbers of \<open>reinforcement-learning.py\<close> are Python floats, that is IEEE 754
  binary64 values: a finite double, an infinity or NaN. A finite double is kept as the
  real number it denotes. The two zeros are one value: they compare equal and the
  program performs no operation that tells them apart. The ints \<open>0\<close>, \<open>1\<close> and \<open>-1\<close>
  that the program stores and compares are the doubles of the same value; on them
  Python's int operations and mixed comparisons give what the float operations give.
\<close>

datatype pyfloat = Finite real | PInf | NInf | NaN

text \<open>
  The binade of a positive real \<open>x\<close> is the exponent \<open>e\<close> with \<open>2^e \<le> x < 2^(e+1)\<close>,
  clipped to the exponent range -1022..1023 of binary64 (below \<open>2^-1022\<close> the doubles are
  subnormal and share the spacing of the lowest binade). It is found by trying the
  exponents from 1023 downwards.
\<close>

fun binade_from :: "real \<Rightarrow> nat \<Rightarrow> int" where
  "binade_from x 0 = - 1022"
| "binade_from x (Suc n) =
     (if 2 powi (int n - 1021) \<le> x then int n - 1021 else binade_from x n)"

definition binade :: "real \<Rightarrow> int" where
  "binade x = binade_from \<bar>x\<bar> 2045"

text \<open>The spacing of the doubles around \<open>x\<close>: 52 fraction bits below the binade.\<close>

definition ulp :: "real \<Rightarrow> real" where
  "ulp x = 2 powi (binade x - 52)"

text \<open>Rounding to the nearest integer, a tie going to the even one.\<close>

definition round_half_even :: "real \<Rightarrow> int" where
  "round_half_even y =
     (let f = \<lfloor>y\<rfloor> in
      if y - of_int f < 1 / 2 then f
      else if y - of_int f > 1 / 2 then f + 1
      else if even f then f else f + 1)"

definition round_mag :: "real \<Rightarrow> real" where
  "round_mag x = of_int (round_half_even (x / ulp x)) * ulp x"

text \<open>
  The double a real result is rounded to (round to nearest, ties to even): the
  magnitude is rounded on the grid of its binade and the sign is kept; a rounded
  magnitude of \<open>2^1024\<close> or more overflows to the infinity of that sign.
\<close>

definition round_double :: "real \<Rightarrow> pyfloat" where
  "round_double x =
     (if x = 0 then Finite 0
      else if 2 ^ 1024 \<le> round_mag \<bar>x\<bar> then (if 0 < x then PInf else NInf)
      else Finite (if 0 < x then round_mag \<bar>x\<bar> else - round_mag \<bar>x\<bar>))"

text \<open>
  The float operations the program uses: \<open>+\<close>, \<open>-\<close>, \<open>*\<close> and \<open><\<close> (\<open>a > b\<close> is
  \<open>b < a\<close>). A finite result is the exact result rounded; the other cases are those of
  IEEE 754. Python raises no exception in any of them.
\<close>

fun fl_add :: "pyfloat \<Rightarrow> pyfloat \<Rightarrow> pyfloat" where
  "fl_add (Finite x) (Finite y) = round_double (x + y)"
| "fl_add NaN b = NaN"
| "fl_add a NaN = NaN"
| "fl_add PInf NInf = NaN"
| "fl_add NInf PInf = NaN"
| "fl_add PInf b = PInf"
| "fl_add NInf b = NInf"
| "fl_add a PInf = PInf"
| "fl_add a NInf = NInf"

fun fl_sub :: "pyfloat \<Rightarrow> pyfloat \<Rightarrow> pyfloat" where
  "fl_sub (Finite x) (Finite y) = round_double (x - y)"
| "fl_sub NaN b = NaN"
| "fl_sub a NaN = NaN"
| "fl_sub PInf PInf = NaN"
| "fl_sub NInf NInf = NaN"
| "fl_sub PInf b = PInf"
| "fl_sub NInf b = NInf"
| "fl_sub a PInf = NInf"
| "fl_sub a NInf = PInf"

fun fl_sign :: "pyfloat \<Rightarrow> int" where
  "fl_sign (Finite x) = (if 0 < x then 1 else if x < 0 then - 1 else 0)"
| "fl_sign PInf = 1"
| "fl_sign NInf = - 1"
| "fl_sign NaN = 0"

fun fl_mul :: "pyfloat \<Rightarrow> pyfloat \<Rightarrow> pyfloat" where
  "fl_mul (Finite x) (Finite y) = round_double (x * y)"
| "fl_mul NaN b = NaN"
| "fl_mul a NaN = NaN"
| "fl_mul a b =
     (if fl_sign a * fl_sign b = 0 then NaN
      else if 0 < fl_sign a * fl_sign b then PInf else NInf)"

fun fl_less :: "pyfloat \<Rightarrow> pyfloat \<Rightarrow> bool" where
  "fl_less (Finite x) (Finite y) = (x < y)"
| "fl_less NaN b = False"
| "fl_less a NaN = False"
| "fl_less a NInf = False"
| "fl_less PInf b = False"
| "fl_less NInf b = True"
| "fl_less a PInf = True"

section \<open>The value table and the agent: \<open>reinforcement-learning.py\<close>\<close>

text \<open>The exceptions the modelled code can raise.\<close>

datatype py_error = KeyError | TypeError | ValueError

text \<open>
  \<open>ValueFunction.value\<close> is a dict keyed by games; two games are the same key when
  their \<open>get_state_hash\<close> agree. The values are Python floats.
\<close>

type_synonym value_table = "board \<rightharpoonup> pyfloat"

text \<open>
  The \<open>match state.get_winner()\<close> of \<open>ValueFunction.__init__\<close>; the default case
  raises (a string is not an exception, so Python reports a TypeError).
\<close>

definition winner_value :: "Player option \<Rightarrow> py_error + pyfloat" where
  "winner_value w =
     (case w of
        None \<Rightarrow> Inr (Finite 0)
      | Some Player_X \<Rightarrow> Inr (Finite 1)
      | Some Player_O \<Rightarrow> Inr (Finite (- 1))
      | Some Player_EMPTY \<Rightarrow> Inl TypeError)"

text \<open>
  \<open>open_states\<close> is a Python set of games: adding a game equal (by
  \<open>get_state_hash\<close>) to a member leaves the set as it is. The set is kept as the
  list of its members. \<open>set.pop()\<close> removes an arbitrary member; which one is a
  parameter of the model (the index \<open>i\<close>).
\<close>

definition set_add :: "TicTacToe \<Rightarrow> TicTacToe list \<Rightarrow> TicTacToe list" where
  "set_add s xs = (if get_state_hash s \<in> set (map get_state_hash xs) then xs else xs @ [s])"

definition set_pop :: "nat \<Rightarrow> TicTacToe list \<Rightarrow> TicTacToe \<times> TicTacToe list" where
  "set_pop i xs = (xs ! i, take i xs @ drop (Suc i) xs)"

text \<open>
  The inner \<open>for valid_move in valid_moves\<close> loop of \<open>__init__\<close>: each move is made
  on a copy, the result of \<open>make_move\<close> is ignored, and the copy is added.
\<close>

definition add_successors :: "TicTacToe \<Rightarrow> TicTacToe list \<Rightarrow> TicTacToe list" where
  "add_successors state open_states =
     foldl (\<lambda>os valid_move.
              set_add (snd (make_move (copy state) (fst valid_move) (snd valid_move))) os)
           open_states (get_valid_moves state)"

text \<open>
  The \<open>while len(open_states) > 0\<close> loop. \<open>pick\<close> says which member each
  \<open>pop()\<close> removes: at the \<open>n\<close>-th iteration the member at index
  \<open>pick n mod len(open_states)\<close>. Every run of the Python loop is the run for some
  \<open>pick\<close>.
\<close>

function vf_loop ::
  "(nat \<Rightarrow> nat) \<Rightarrow> nat \<Rightarrow> TicTacToe list \<Rightarrow> value_table \<Rightarrow> py_error + value_table" where
  "vf_loop pick n open_states val =
     (if length open_states > 0 then
        (let popped = set_pop (pick n mod length open_states) open_states;
             state = fst popped;
             rest = snd popped
         in if val (get_state_hash state) \<noteq> None then vf_loop pick (Suc n) rest val
            else (case winner_value (get_winner state) of
                    Inl e \<Rightarrow> Inl e
                  | Inr v \<Rightarrow>
                      vf_loop pick (Suc n) (add_successors state rest)
                        (val(get_state_hash state \<mapsto> v))))
      else Inr val)"
  by pat_completeness auto

text \<open>\<open>ValueFunction.__init__\<close>: the loop started on the set holding the empty game.\<close>

definition ValueFunction_init :: "(nat \<Rightarrow> nat) \<Rightarrow> py_error + value_table" where
  "ValueFunction_init pick = vf_loop pick 0 (set_add TicTacToe_init []) Map.empty"

text \<open>
  \<open>update_value\<close>: the right-hand side is evaluated first (\<open>value[state]\<close>, then
  \<open>value[state_prime]\<close>, then the float subtraction, multiplication and addition, each
  rounded), then the one store is made. A missing key raises KeyError before the store.
  The result is the outcome of the call and the table after it.
\<close>

definition update_value ::
  "value_table \<Rightarrow> TicTacToe \<Rightarrow> TicTacToe \<Rightarrow> pyfloat \<Rightarrow> (py_error + unit) \<times> value_table" where
  "update_value val state state_prime alpha =
     (case val (get_state_hash state) of
        None \<Rightarrow> (Inl KeyError, val)
      | Some v \<Rightarrow>
          (case val (get_state_hash state_prime) of
             None \<Rightarrow> (Inl KeyError, val)
           | Some v' \<Rightarrow>
               (Inr (), val(get_state_hash state \<mapsto> fl_add v (fl_mul alpha (fl_sub v' v))))))"

definition get_value :: "value_table \<Rightarrow> TicTacToe \<Rightarrow> py_error + pyfloat" where
  "get_value val state =
     (case val (get_state_hash state) of None \<Rightarrow> Inl KeyError | Some v \<Rightarrow> Inr v)"

record Agent =
  value_function :: value_table
  exploration :: pyfloat
  exploration_decay :: pyfloat
  previous_state :: "Player \<rightharpoonup> TicTacToe"
  alpha :: pyfloat

text \<open>
  \<open>Agent.__init__\<close>, with the defaults of the source passed by the caller. The
  literal \<open>0.1\<close> is the double nearest to one tenth.
\<close>

definition Agent_init :: "(nat \<Rightarrow> nat) \<Rightarrow> pyfloat \<Rightarrow> pyfloat \<Rightarrow> py_error + Agent" where
  "Agent_init pick expl decay =
     (case ValueFunction_init pick of
        Inl e \<Rightarrow> Inl e
      | Inr vf \<Rightarrow>
          Inr \<lparr> value_function = vf,
                exploration = expl,
                exploration_decay = decay,
                previous_state = [Player_X \<mapsto> TicTacToe_init, Player_O \<mapsto> TicTacToe_init],
                alpha = round_double (1 / 10) \<rparr>)"

text \<open>
  The first loop of \<open>get_move\<close>: the accumulator is \<open>(best_move, best_value)\<close>.
  The test \<open>player == Player.X\<close> sends every other role to the minimising branch.
\<close>

fun best_scan ::
  "value_table \<Rightarrow> TicTacToe \<Rightarrow> Player \<Rightarrow> (int \<times> int) list \<Rightarrow>
   (int \<times> int) option \<times> pyfloat \<Rightarrow> py_error + ((int \<times> int) option \<times> pyfloat)" where
  "best_scan vf game player [] acc = Inr acc"
| "best_scan vf game player (valid_move # rest) (best_move, best_value) =
     (let hypothetical_game = snd (make_move (copy game) (fst valid_move) (snd valid_move))
      in case get_value vf hypothetical_game of
           Inl e \<Rightarrow> Inl e
         | Inr v \<Rightarrow>
             if player = Player_X
             then (if fl_less best_value v
                   then best_scan vf game player rest (Some valid_move, v)
                   else best_scan vf game player rest (best_move, best_value))
             else (if fl_less v best_value
                   then best_scan vf game player rest (Some valid_move, v)
                   else best_scan vf game player rest (best_move, best_value)))"

text \<open>
  \<open>get_move\<close>. The two random draws are parameters: \<open>u\<close> is the value of
  \<open>random.random()\<close> (a finite double in [0, 1)) and \<open>j\<close> decides
  \<open>random.randrange(0, len(valid_moves))\<close>, which raises ValueError on an empty range.
  Indexing \<open>None\<close> raises TypeError. The result is the outcome of the call and the agent
  after it (the exploration rate is decayed before the chosen move is applied).
\<close>

definition get_move ::
  "Agent \<Rightarrow> TicTacToe \<Rightarrow> Player \<Rightarrow> real \<Rightarrow> nat \<Rightarrow> (py_error + (int \<times> int)) \<times> Agent" where
  "get_move a game player u j =
     (let valid_moves = get_valid_moves game in
      case best_scan (value_function a) game player valid_moves
             (None, if player = Player_X then Finite (- 1) else Finite 1) of
        Inl e \<Rightarrow> (Inl e, a)
      | Inr (best_move, best_value) \<Rightarrow>
          (case (if fl_less (Finite u) (exploration a)
                 then (if length valid_moves = 0 then Inl ValueError
                       else Inr (Some (valid_moves ! (j mod length valid_moves))))
                 else Inr best_move) of
             Inl e \<Rightarrow> (Inl e, a)
           | Inr chosen_move \<Rightarrow>
               (let a1 = a\<lparr>exploration := fl_mul (exploration a) (exploration_decay a)\<rparr> in
                case chosen_move of
                  None \<Rightarrow> (Inl TypeError, a1)
                | Some mv \<Rightarrow>
                    (let new_game = snd (make_move (copy game) (fst mv) (snd mv)) in
                     case previous_state a1 player of
                       None \<Rightarrow> (Inl KeyError, a1)
                     | Some prev \<Rightarrow>
                         (case update_value (value_function a1) prev new_game (alpha a1) of
                            (Inl e, vf) \<Rightarrow> (Inl e, a1\<lparr>value_function := vf\<rparr>)
                          | (Inr _, vf) \<Rightarrow>
                              (Inr mv,
                               a1\<lparr> value_function := vf,
                                   previous_state := (previous_state a1)(player \<mapsto> new_game) \<rparr>))))))"

text \<open>\<open>lost_game\<close>: one \<open>update_value\<close> call from the role's cursor to the given game.\<close>

definition lost_game :: "Agent \<Rightarrow> TicTacToe \<Rightarrow> Player \<Rightarrow> (py_error + unit) \<times> Agent" where
  "lost_game a game player =
     (case previous_state a player of
        None \<Rightarrow> (Inl KeyError, a)
      | Some prev \<Rightarrow>
          (case update_value (value_function a) prev game (alpha a) of
             (r, vf) \<Rightarrow> (r, a\<lparr>value_function := vf\<rparr>)))"

section \<open>Notions of the specification\<close>

text \<open>A state is reachable when legal moves (moves \<open>make_move\<close> accepts) lead to it from the empty game.\<close>

inductive reachable :: "TicTacToe \<Rightarrow> bool" where
  reachable_init: "reachable TicTacToe_init"
| reachable_step:
    "reachable s \<Longrightarrow> make_move s row col = ((True, reward), s') \<Longrightarrow> reachable s'"

text \<open>The eight lines of the board, as index triples of the flattened board.\<close>

definition board_lines :: "(nat \<times> nat \<times> nat) list" where
  "board_lines =
     [(0, 1, 2), (3, 4, 5), (6, 7, 8),
      (0, 3, 6), (1, 4, 7), (2, 5, 8),
      (0, 4, 8), (2, 4, 6)]"

text \<open>Three-in-a-row for a mark: some line holds that mark in all three cells.\<close>

definition three_in_a_row :: "board \<Rightarrow> Player \<Rightarrow> bool" where
  "three_in_a_row b p =
     list_ex (\<lambda>(i, j, k). b ! i = player_value p \<and> b ! j = player_value p \<and> b ! k = player_value p)
       board_lines"

definition board_full :: "board \<Rightarrow> bool" where
  "board_full b = (0 \<notin> set b)"

text \<open>The claim that the legal-move list is empty exactly on full or finished games.\<close>

definition legal_moves_empty_iff_full_or_terminal :: "TicTacToe \<Rightarrow> bool" where
  "legal_moves_empty_iff_full_or_terminal s =
     ((get_valid_moves s = []) = (board_full (board s) \<or> is_game_over s))"

text \<open>The nine coordinates in row-major order.\<close>

definition all_cells :: "(int \<times> int) list" where
  "all_cells = [(0, 0), (0, 1), (0, 2), (1, 0), (1, 1), (1, 2), (2, 0), (2, 1), (2, 2)]"


definition is_double :: "real \<Rightarrow> bool" where
  "is_double v = (round_double v = Finite v)"



text \<open>
  The value the successor of \<open>game\<close> under a move has in the table (\<open>None\<close> when it
  has no entry), the bound the best value starts from, and "strictly better" for a role.
\<close>

definition successor_value :: "value_table \<Rightarrow> TicTacToe \<Rightarrow> int \<times> int \<Rightarrow> pyfloat option" where
  "successor_value vf game mv = vf (get_state_hash (snd (make_move (copy game) (fst mv) (snd mv))))"

definition initial_best :: "Player \<Rightarrow> pyfloat" where
  "initial_best player = (if player = Player_X then Finite (- 1) else Finite 1)"

definition better :: "Player \<Rightarrow> pyfloat \<Rightarrow> pyfloat \<Rightarrow> bool" where
  "better player v best = (if player = Player_X then fl_less best v else fl_less v best)"

text \<open>
  The selection the specification describes, over the values \<open>vals\<close> of the moves in
  enumeration order: no move is selected and the best value is the starting bound when
  no value is strictly better than the bound; otherwise the selected index holds a value
  strictly better than the bound, no value is strictly better than it, and it is strictly
  better than every value before it.
\<close>

definition greedy_choice :: "Player \<Rightarrow> pyfloat \<Rightarrow> pyfloat list \<Rightarrow> nat option \<times> pyfloat \<Rightarrow> bool" where
  "greedy_choice player start vals r =
     (case fst r of
        None \<Rightarrow> snd r = start \<and> list_all (\<lambda>v. \<not> better player v start) vals
      | Some i \<Rightarrow>
          i < length vals \<and> snd r = vals ! i \<and> better player (vals ! i) start
          \<and> list_all (\<lambda>v. \<not> better player v (vals ! i)) vals
          \<and> list_all (\<lambda>v. better player (vals ! i) v) (take i vals))"

section \<open>A measure for the enumeration loop\<close>

text \<open>
  Every iteration of the loop lowers the total weight of the open set: a state whose
  board is in the table weighs 1, any other state weighs \<open>expansions k\<close> for its
  \<open>k\<close> empty cells, which is more than \<open>k\<close> successors can weigh together.
\<close>

fun expansions :: "nat \<Rightarrow> nat" where
  "expansions 0 = 2"
| "expansions (Suc k) = 2 + Suc k * expansions k"

definition state_weight :: "value_table \<Rightarrow> TicTacToe \<Rightarrow> nat" where
  "state_weight val s =
     (if val (get_state_hash s) \<noteq> None then 1 else expansions (length (get_valid_moves s)))"

definition open_weight :: "value_table \<Rightarrow> TicTacToe list \<Rightarrow> nat" where
  "open_weight val os = sum_list (map (state_weight val) os)"

section \<open>Concrete games, tables and agents\<close>

text \<open>Playing a list of moves, each on the game the previous one left.\<close>

definition play :: "TicTacToe \<Rightarrow> (int \<times> int) list \<Rightarrow> TicTacToe" where
  "play s moves = foldl (\<lambda>g mv. snd (make_move g (fst mv) (snd mv))) s moves"

text \<open>The sample game of \<open>tictactoe.py\<close>: X completes the top row at the fifth move.\<close>

definition x_wins_top_row :: TicTacToe where
  "x_wins_top_row = play TicTacToe_init [(0, 0), (1, 1), (0, 1), (2, 2), (0, 2)]"

text \<open>The game one move earlier: O has just played (2, 2) and X is to move.\<close>

definition before_x_wins :: TicTacToe where
  "before_x_wins = play TicTacToe_init [(0, 0), (1, 1), (0, 1), (2, 2)]"

text \<open>A table with two entries: the empty board at 0 and the board after X takes (0, 0) at 1.\<close>

definition two_entry_table :: value_table where
  "two_entry_table =
     [board TicTacToe_init \<mapsto> Finite 0, board (play TicTacToe_init [(0, 0)]) \<mapsto> Finite 1]"


text \<open>
  An agent at the end of the sample game: the final game has the value 1, the game
  before X's last move has the value 1/2 and is the cursor of role O, the loser. The
  learning rate is the \<open>0.1\<close> of the source.
\<close>

definition end_table :: value_table where
  "end_table = [board before_x_wins \<mapsto> Finite (1 / 2), board x_wins_top_row \<mapsto> Finite 1]"

definition end_agent :: Agent where
  "end_agent =
     \<lparr> value_function = end_table,
       exploration = Finite (1 / 2),
       exploration_decay = round_double (99 / 100),
       previous_state = [Player_X \<mapsto> x_wins_top_row, Player_O \<mapsto> before_x_wins],
       alpha = round_double (1 / 10) \<rparr>"

text \<open>A table that gives each of the nine boards after X's first move the value -1.\<close>

definition losing_table :: value_table where
  "losing_table = map_of (map (\<lambda>mv. (board (play TicTacToe_init [mv]), Finite (- 1))) all_cells)"

definition losing_agent :: Agent where
  "losing_agent =
     \<lparr> value_function = losing_table,
       exploration = Finite 0,
       exploration_decay = round_double (99 / 100),
       previous_state = [Player_X \<mapsto> TicTacToe_init, Player_O \<mapsto> TicTacToe_init],
       alpha = round_double (1 / 10) \<rparr>"



section \<open>Outcomes and invariants of reachable games\<close>

text \<open>
  The value \<open>__init__\<close> is expected to give a board: 1 when X has three in a row, -1
  when O has, 0 otherwise.
\<close>

definition outcome_value :: "board \<Rightarrow> pyfloat" where
  "outcome_value b =
     (if three_in_a_row b Player_X then Finite 1
      else if three_in_a_row b Player_O then Finite (- 1) else Finite 0)"

text \<open>
  What \<open>_check_game_over\<close> finds on a board, whatever the other fields of the game are:
  \<open>None\<close> when the game goes on, \<open>Some w\<close> when it is over with the winner field \<open>w\<close>.
\<close>

definition board_outcome :: "board \<Rightarrow> Player option option" where
  "board_outcome b =
     (let s = snd (check_game_over
                \<lparr> board = b, current_player = Player_X, game_over = False, winner = None,
                  move_history = [] \<rparr>)
      in if game_over s then Some (winner s) else None)"

text \<open>
  The invariant of the games that legal moves produce: a 3x3 board of marks, the flag
  and the winner those the board determines, X and O alternating with X first.
\<close>

definition consistent :: "TicTacToe \<Rightarrow> bool" where
  "consistent s =
     (length (board s) = 9
      \<and> set (board s) \<subseteq> {- 1, 0, 1}
      \<and> game_over s = (board_outcome (board s) \<noteq> None)
      \<and> winner s = (case board_outcome (board s) of None \<Rightarrow> None | Some w \<Rightarrow> w)
      \<and> (sum_list (board s) = 0 \<or> sum_list (board s) = 1)
      \<and> (current_player s = Player_X) = ((sum_list (board s) = 0) \<noteq> game_over s)
      \<and> current_player s \<noteq> Player_EMPTY)"

text \<open>The values a cell can hold.\<close>

definition tri :: "int \<Rightarrow> bool" where
  "tri a = (a = - 1 \<or> a = 0 \<or> a = 1)"

section \<open>An invariant of the enumeration loop\<close>

text \<open>
  Every open state is reachable; every table entry is the board of a reachable state
  with the value of its winner; every successor of a reachable state in the table is in
  the table or among the open states; and the empty board is in the table or open.
\<close>

definition vf_invariant :: "TicTacToe list \<Rightarrow> value_table \<Rightarrow> bool" where
  "vf_invariant os val =
     ((\<forall>s\<in>set os. reachable s)
      \<and> (\<forall>b v. val b = Some v \<longrightarrow>
             (\<exists>s. reachable s \<and> board s = b \<and> winner_value (winner s) = Inr v))
      \<and> (\<forall>s row col. reachable s \<and> val (board s) \<noteq> None \<and> is_valid_move s row col \<longrightarrow>
             val (board (snd (make_move s row col))) \<noteq> None
             \<or> board (snd (make_move s row col)) \<in> board ` set os)
      \<and> (val (board TicTacToe_init) \<noteq> None \<or> board TicTacToe_init \<in> board ` set os))"

section \<open>Sequences of calls on the table\<close>

text \<open>
  A call of \<open>update_value\<close> or \<open>get_value\<close>, and the table after a sequence of calls. A
  call that raises leaves the table as it was; \<open>get_value\<close> never writes.
\<close>

datatype table_call = Update TicTacToe TicTacToe pyfloat | Get TicTacToe

fun run_call :: "value_table \<Rightarrow> table_call \<Rightarrow> value_table" where
  "run_call val (Update state state_prime rate) = snd (update_value val state state_prime rate)"
| "run_call val (Get state) = val"

definition run_calls :: "value_table \<Rightarrow> table_call list \<Rightarrow> value_table" where
  "run_calls val calls = foldl run_call val calls"

text \<open>
  Three calls made during a game: an update of the empty game, a lookup of the final
  game, and an update of the game after X's first move towards the final game.
\<close>

definition sample_calls :: "table_call list" where
  "sample_calls =
     [Update TicTacToe_init (play TicTacToe_init [(0, 0)]) (round_double (1 / 10)),
      Get x_wins_top_row,
      Update (play TicTacToe_init [(0, 0)]) x_wins_top_row (Finite (1 / 2))]"

section \<open>Evaluating the game on concrete inputs\<close>

lemmas game_defs = make_move_def is_valid_move_def check_game_over_def declare_winner_def
  win_reward_def row_sum_def col_sum_def main_diag_sum_def anti_diag_sum_def cell_def set_cell_def
  range3_def get_valid_moves_def TicTacToe_init_def

lemma x_wins_top_row_eq: "x_wins_top_row =
  \<lparr>board = [1, 1, 1, 0, - 1, 0, 0, 0, - 1], current_player = Player_X, game_over = True,
          winner = Some Player_X,
          move_history =
            [(0, 0, Player_X), (1, 1, Player_O), (0, 1, Player_X), (2, 2, Player_O),
             (0, 2, Player_X)]\<rparr>"
  by (simp add: x_wins_top_row_def play_def game_defs Let_def)

lemma play_00: "board (play TicTacToe_init [(0, 0)]) = [1, 0, 0, 0, 0, 0, 0, 0, 0]"
  by (simp add: play_def game_defs Let_def)

section \<open>Move legality\<close>

lemma copy_id: "copy s = s"
  by (simp add: copy_def)

lemma get_valid_moves_filter:
  "get_valid_moves s = filter (\<lambda>(row, col). cell (board s) row col = 0) all_cells"
  by (simp add: get_valid_moves_def range3_def all_cells_def)

lemma nine_cells:
  assumes "length (b :: int list) = 9"
  obtains a0 a1 a2 a3 a4 a5 a6 a7 a8 where "b = [a0, a1, a2, a3, a4, a5, a6, a7, a8]"
proof -
  from assms have "b = [b ! 0, b ! 1, b ! 2, b ! 3, b ! 4, b ! 5, b ! 6, b ! 7, b ! 8]"
    by (intro nth_equalityI) (auto simp: nth_Cons' less_Suc_eq numeral_eq_Suc)
  then show ?thesis using that by blast
qed

lemma get_valid_moves_init: "get_valid_moves TicTacToe_init = all_cells"
  by (simp add: get_valid_moves_filter all_cells_def cell_def TicTacToe_init_def)

text \<open>
  C6. A move on an occupied cell, with a coordinate outside 0..2, or on a game that is
  over is refused: \<open>make_move\<close> returns success \<open>False\<close> (and no reward) and the game
  after the call is the game before it, in every field.
\<close>

theorem make_move_rejects_invalid:
  assumes "cell (board s) row col \<noteq> 0 \<or> \<not> (0 \<le> row \<and> row < 3 \<and> 0 \<le> col \<and> col < 3) \<or> is_game_over s"
  shows "make_move s row col = ((False, None), s)"
  using assms by (auto simp add: make_move_def is_valid_move_def is_game_over_def)

theorem make_move_rejects_invalid_witness:
  "make_move x_wins_top_row 1 0 = ((False, None), x_wins_top_row)
   \<and> make_move TicTacToe_init 3 0 = ((False, None), TicTacToe_init)
   \<and> make_move TicTacToe_init 0 (- 1) = ((False, None), TicTacToe_init)
   \<and> make_move (play TicTacToe_init [(1, 1)]) 1 1 = ((False, None), play TicTacToe_init [(1, 1)])"
proof -
  have a: "is_game_over x_wins_top_row" by (simp add: x_wins_top_row_eq is_game_over_def)
  have d: "cell (board (play TicTacToe_init [(1, 1)])) 1 1 \<noteq> 0"
    by (simp add: play_def game_defs Let_def)
  show ?thesis
    using make_move_rejects_invalid [of x_wins_top_row 1 0]
      make_move_rejects_invalid [of TicTacToe_init 3 0]
      make_move_rejects_invalid [of TicTacToe_init 0 "- 1"]
      make_move_rejects_invalid [of "play TicTacToe_init [(1, 1)]" 1 1] a d
    by simp
qed

text \<open>
  C5, as amended. \<open>get_valid_moves\<close> lists the empty cells in row-major order, whether
  or not the game is over, and on a 3x3 board the list is empty exactly when the
  board is full.
\<close>

theorem get_valid_moves_empty_cells:
  "get_valid_moves s = filter (\<lambda>(row, col). cell (board s) row col = 0) all_cells
   \<and> (length (board s) = 9 \<longrightarrow> (get_valid_moves s = []) = board_full (board s))"
proof (intro conjI impI)
  show "get_valid_moves s = filter (\<lambda>(row, col). cell (board s) row col = 0) all_cells"
    by (rule get_valid_moves_filter)
next
  assume "length (board s) = 9"
  then obtain a0 a1 a2 a3 a4 a5 a6 a7 a8 where "board s = [a0, a1, a2, a3, a4, a5, a6, a7, a8]"
    by (rule nine_cells)
  then show "(get_valid_moves s = []) = board_full (board s)"
    by (simp add: get_valid_moves_filter all_cells_def cell_def board_full_def filter_empty_conv) 
qed

theorem get_valid_moves_empty_cells_witness:
  "get_valid_moves x_wins_top_row = [(1, 0), (1, 2), (2, 0), (2, 1)]
   \<and> length (board x_wins_top_row) = 9
   \<and> \<not> board_full (board x_wins_top_row)"
  using get_valid_moves_empty_cells [of x_wins_top_row]
  by (simp add: x_wins_top_row_eq all_cells_def cell_def board_full_def)

text \<open>
  C5 as stated fails: after X has completed the top row the game is over, four cells
  are empty, and \<open>get_valid_moves\<close> returns those four cells.
\<close>

theorem get_valid_moves_terminal_counterexample:
  "is_game_over x_wins_top_row
   \<and> get_valid_moves x_wins_top_row = [(1, 0), (1, 2), (2, 0), (2, 1)]
   \<and> \<not> legal_moves_empty_iff_full_or_terminal x_wins_top_row"
  by (simp add: x_wins_top_row_eq legal_moves_empty_iff_full_or_terminal_def is_game_over_def
      get_valid_moves_filter all_cells_def cell_def)

section \<open>The enumeration loop terminates\<close>

lemma expansions_ge2: "2 \<le> expansions k"
  by (cases k) simp_all

lemma expansions_mono_Suc: "expansions k \<le> expansions (Suc k)"
proof -
  have "expansions k \<le> Suc k * expansions k" by simp
  then show ?thesis by simp
qed

lemma expansions_mono: "m \<le> n \<Longrightarrow> expansions m \<le> expansions n"
  by (rule lift_Suc_mono_le) (rule expansions_mono_Suc)

lemma expansions_step: "n * expansions (n - 1) < expansions n"
  by (cases n) simp_all

lemma state_weight_pos: "1 \<le> state_weight val s"
  using expansions_ge2 [of "length (get_valid_moves s)"] by (simp add: state_weight_def)

lemma state_weight_antitone: "state_weight (val(k \<mapsto> v)) s \<le> state_weight val s"
  using expansions_ge2 [of "length (get_valid_moves s)"] by (simp add: state_weight_def)

lemma open_weight_antitone: "open_weight (val(k \<mapsto> v)) os \<le> open_weight val os"
  unfolding open_weight_def
  by (intro sum_list_mono state_weight_antitone)

lemma open_weight_pop:
  assumes "i < length xs"
  shows "open_weight val xs = state_weight val (fst (set_pop i xs)) + open_weight val (snd (set_pop i xs))"
proof -
  have "xs = take i xs @ xs ! i # drop (Suc i) xs"
    using assms by (rule id_take_nth_drop)
  then have "open_weight val xs = open_weight val (take i xs @ xs ! i # drop (Suc i) xs)"
    by simp
  then show ?thesis
    by (simp add: open_weight_def set_pop_def)
qed

lemma open_weight_add: "open_weight val (set_add s xs) \<le> open_weight val xs + state_weight val s"
  by (simp add: open_weight_def set_add_def)

lemma open_weight_foldl_add:
  "open_weight val (foldl (\<lambda>os mv. set_add (f mv) os) xs mvs)
     \<le> open_weight val xs + sum_list (map (\<lambda>mv. state_weight val (f mv)) mvs)"
proof (induction mvs arbitrary: xs)
  case Nil
  then show ?case by simp
next
  case (Cons mv mvs)
  have "open_weight val (foldl (\<lambda>os mv. set_add (f mv) os) (set_add (f mv) xs) mvs)
          \<le> open_weight val (set_add (f mv) xs) + sum_list (map (\<lambda>mv. state_weight val (f mv)) mvs)"
    by (rule Cons.IH)
  also have "\<dots> \<le> (open_weight val xs + state_weight val (f mv))
                   + sum_list (map (\<lambda>mv. state_weight val (f mv)) mvs)"
    using open_weight_add [of val "f mv" xs] by simp
  finally show ?case by simp
qed

lemma board_check_game_over: "board (snd (check_game_over s)) = board s"
  by (simp add: check_game_over_def declare_winner_def Let_def split: option.splits)

lemma board_make_move:
  "board (snd (make_move s row col)) =
     (if is_valid_move s row col
      then set_cell (board s) row col (player_value (current_player s)) else board s)"
proof (cases "is_valid_move s row col")
  case False
  then show ?thesis by (simp add: make_move_def)
next
  case True
  let ?s1 = "s\<lparr> board := set_cell (board s) row col (player_value (current_player s)),
                 move_history := move_history s @ [(row, col, current_player s)] \<rparr>"
  have "board (snd (make_move s row col)) = board (snd (check_game_over ?s1))"
    using True by (simp add: make_move_def Let_def split: prod.splits)
  then show ?thesis using True by (simp add: board_check_game_over)
qed

lemma cell_index_inj:
  assumes "x \<in> set all_cells" "y \<in> set all_cells"
    and "nat (3 * fst x + snd x) = nat (3 * fst y + snd y)"
  shows "x = y"
  using assms by (auto simp: all_cells_def)

lemma filter_length_less:
  assumes "\<forall>x\<in>set xs. Q x \<longrightarrow> P x" and "x \<in> set xs" and "P x" and "\<not> Q x"
  shows "length (filter Q xs) < length (filter P xs)"
proof -
  have "filter Q xs = filter Q (filter P xs)"
    using assms(1) by (auto intro: filter_cong)
  moreover have "length (filter Q (filter P xs)) < length (filter P xs)"
    using assms(2,3,4) by (intro length_filter_less [of x]) simp_all
  ultimately show ?thesis by simp
qed

lemma set_cell_fewer_moves:
  assumes "mv \<in> set all_cells" and "cell b (fst mv) (snd mv) = 0"
    and "set_cell b (fst mv) (snd mv) p \<noteq> b"
  shows "length (filter (\<lambda>(row, col). cell (set_cell b (fst mv) (snd mv) p) row col = 0) all_cells)
           < length (filter (\<lambda>(row, col). cell b row col = 0) all_cells)"
proof -
  let ?i = "nat (3 * fst mv + snd mv)"
  have i: "?i < length b"
    using assms(3) by (cases "?i < length b") (simp_all add: set_cell_def list_update_beyond)
  have p: "p \<noteq> 0"
    using assms(2,3) list_update_id [of b ?i] by (auto simp: set_cell_def cell_def)
  have new: "cell (set_cell b (fst mv) (snd mv) p) (fst mv) (snd mv) = p"
    using i by (simp add: set_cell_def cell_def)
  have other: "cell (set_cell b (fst mv) (snd mv) p) (fst x) (snd x) = cell b (fst x) (snd x)"
    if "x \<in> set all_cells" "x \<noteq> mv" for x
  proof -
    have "nat (3 * fst x + snd x) \<noteq> ?i"
      using cell_index_inj [OF that(1) assms(1)] that(2) by blast
    then show ?thesis by (simp add: set_cell_def cell_def)
  qed
  show ?thesis
  proof (rule filter_length_less [of _ _ _ mv])
    show "\<forall>x\<in>set all_cells. (case x of (row, col) \<Rightarrow> cell (set_cell b (fst mv) (snd mv) p) row col = 0)
             \<longrightarrow> (case x of (row, col) \<Rightarrow> cell b row col = 0)"
    proof (intro ballI impI)
      fix x
      assume x: "x \<in> set all_cells"
        and q: "case x of (row, col) \<Rightarrow> cell (set_cell b (fst mv) (snd mv) p) row col = 0"
      have "x \<noteq> mv" using q new p by (auto simp: case_prod_beta)
      from other [OF x this] q show "case x of (row, col) \<Rightarrow> cell b row col = 0"
        by (simp add: case_prod_beta)
    qed
    show "mv \<in> set all_cells" by (rule assms(1))
    show "case mv of (row, col) \<Rightarrow> cell b row col = 0"
      using assms(2) by (simp add: case_prod_beta)
    show "\<not> (case mv of (row, col) \<Rightarrow> cell (set_cell b (fst mv) (snd mv) p) row col = 0)"
      using new p by (simp add: case_prod_beta)
  qed
qed

lemma successor_fewer_moves:
  assumes "mv \<in> set (get_valid_moves s)"
  shows "board (snd (make_move s (fst mv) (snd mv))) = board s
         \<or> length (get_valid_moves (snd (make_move s (fst mv) (snd mv)))) < length (get_valid_moves s)"
proof -
  from assms have mv: "mv \<in> set all_cells" "cell (board s) (fst mv) (snd mv) = 0"
    by (auto simp: get_valid_moves_filter)
  show ?thesis
    using set_cell_fewer_moves [OF mv, of "player_value (current_player s)"]
    by (auto simp: board_make_move get_valid_moves_filter)
qed

lemma successor_weight:
  assumes "mv \<in> set (get_valid_moves s)"
  shows "state_weight (val(get_state_hash s \<mapsto> v)) (snd (make_move (copy s) (fst mv) (snd mv)))
           \<le> expansions (length (get_valid_moves s) - 1)"
proof -
  let ?t = "snd (make_move s (fst mv) (snd mv))"
  from successor_fewer_moves [OF assms]
  show ?thesis
  proof
    assume "board ?t = board s"
    then show ?thesis
      using expansions_ge2 [of "length (get_valid_moves s) - 1"]
      by (simp add: state_weight_def get_state_hash_def copy_id)
  next
    assume "length (get_valid_moves ?t) < length (get_valid_moves s)"
    then have "expansions (length (get_valid_moves ?t)) \<le> expansions (length (get_valid_moves s) - 1)"
      by (intro expansions_mono) simp
    then show ?thesis
      using expansions_ge2 [of "length (get_valid_moves s) - 1"]
      by (simp add: state_weight_def copy_id)
  qed
qed

lemma sum_list_bounded: "(\<And>x. x \<in> set xs \<Longrightarrow> f x \<le> (c::nat)) \<Longrightarrow> sum_list (map f xs) \<le> length xs * c"
  by (induction xs) (simp_all add: add_mono)

lemma add_successors_weight:
  "open_weight (val(get_state_hash s \<mapsto> v)) (add_successors s rest)
     < open_weight val rest + expansions (length (get_valid_moves s))"
proof -
  let ?val = "val(get_state_hash s \<mapsto> v)"
  let ?n = "length (get_valid_moves s)"
  have "open_weight ?val (add_successors s rest)
          \<le> open_weight ?val rest
             + sum_list (map (\<lambda>mv. state_weight ?val (snd (make_move (copy s) (fst mv) (snd mv))))
                 (get_valid_moves s))"
    unfolding add_successors_def by (rule open_weight_foldl_add)
  also have "\<dots> \<le> open_weight ?val rest + ?n * expansions (?n - 1)"
    by (intro add_left_mono sum_list_bounded successor_weight)
  also have "\<dots> \<le> open_weight val rest + ?n * expansions (?n - 1)"
    by (intro add_right_mono open_weight_antitone)
  also have "\<dots> < open_weight val rest + expansions ?n"
    using expansions_step [of ?n] by simp
  finally show ?thesis .
qed

termination vf_loop
proof (relation "measure (\<lambda>(pick, n, os, val). open_weight val os)")
  show "wf (measure (\<lambda>(pick, n, os, val). open_weight val os))" by simp
next
  fix pick :: "nat \<Rightarrow> nat" and n open_states and val :: value_table and popped state rest
  assume "0 < length open_states"
    and p: "popped = set_pop (pick n mod length open_states) open_states"
    and "state = fst popped" "rest = snd popped"
  then have "open_weight val open_states = state_weight val state + open_weight val rest"
    using open_weight_pop [of "pick n mod length open_states" open_states val] by simp
  then show "((pick, Suc n, rest, val), pick, n, open_states, val)
               \<in> measure (\<lambda>(pick, n, os, val). open_weight val os)"
    using state_weight_pos [of val state] by simp
next
  fix pick :: "nat \<Rightarrow> nat" and n open_states and val :: value_table and popped state rest v
  assume "0 < length open_states"
    and p: "popped = set_pop (pick n mod length open_states) open_states"
    and "state = fst popped" "rest = snd popped"
    and new: "\<not> val (get_state_hash state) \<noteq> None"
  then have "open_weight val open_states = state_weight val state + open_weight val rest"
    using open_weight_pop [of "pick n mod length open_states" open_states val] by simp
  moreover have "state_weight val state = expansions (length (get_valid_moves state))"
    using new by (simp add: state_weight_def)
  ultimately show "((pick, Suc n, add_successors state rest, val(get_state_hash state \<mapsto> v)),
                    pick, n, open_states, val)
               \<in> measure (\<lambda>(pick, n, os, val). open_weight val os)"
    using add_successors_weight [of val state v rest] by simp
qed


section \<open>Rounding to a double\<close>

text \<open>The binade brackets the magnitude, and is monotone in it.\<close>

lemma binade_from_spec:
  "- 1022 \<le> binade_from x n \<and> binade_from x n \<le> int n - 1022
   \<and> (- 1022 < binade_from x n \<longrightarrow> 2 powi (binade_from x n) \<le> x)
   \<and> (binade_from x n < int n - 1022 \<longrightarrow> x < 2 powi (binade_from x n + 1))"
proof (induction n)
  case 0
  show ?case by simp
next
  case (Suc n)
  show ?case
  proof (cases "2 powi (int n - 1021) \<le> x")
    case True
    then show ?thesis by simp
  next
    case False
    have e: "binade_from x (Suc n) = binade_from x n" using False by simp
    show ?thesis
    proof (cases "binade_from x n < int n - 1022")
      case True
      then show ?thesis using Suc e by simp
    next
      case False
      with Suc have b: "binade_from x n = int n - 1022" by simp
      have "x < 2 powi (int n - 1021)" using \<open>\<not> 2 powi (int n - 1021) \<le> x\<close> by simp
      moreover have "int n - 1022 + 1 = int n - 1021" by simp
      ultimately have "x < 2 powi (int n - 1022 + 1)" by (simp only:)
      moreover have "- 1022 < int n - 1022 \<longrightarrow> 2 powi (int n - 1022) \<le> x"
        using Suc b by simp
      ultimately show ?thesis unfolding e b by simp
    qed
  qed
qed

lemma binade_range: "- 1022 \<le> binade x" "binade x \<le> 1023"
  using binade_from_spec [of "\<bar>x\<bar>" 2045] by (simp_all add: binade_def)

lemma binade_lower: "- 1022 < binade x \<Longrightarrow> 2 powi (binade x) \<le> \<bar>x\<bar>"
  using binade_from_spec [of "\<bar>x\<bar>" 2045] by (simp add: binade_def)

lemma binade_upper: "binade x < 1023 \<Longrightarrow> \<bar>x\<bar> < 2 powi (binade x + 1)"
  using binade_from_spec [of "\<bar>x\<bar>" 2045] by (simp add: binade_def)

lemma powi_two_mono: "(a::int) \<le> b \<Longrightarrow> (2::real) powi a \<le> 2 powi b"
  by (rule power_int_increasing) simp_all


lemma binade_eqI:
  assumes "- 1022 \<le> L" "L \<le> 1023"
    and "- 1022 < L \<Longrightarrow> 2 powi L \<le> \<bar>x\<bar>"
    and "L < 1023 \<Longrightarrow> \<bar>x\<bar> < 2 powi (L + 1)"
  shows "binade x = L"
proof (rule ccontr)
  assume n: "binade x \<noteq> L"
  show False
  proof (cases "binade x < L")
    case True
    then have "- 1022 < L" using binade_range(1) [of x] by simp
    then have 1: "2 powi L \<le> \<bar>x\<bar>" by (rule assms(3))
    have "binade x < 1023" using True assms(2) by simp
    then have 2: "\<bar>x\<bar> < 2 powi (binade x + 1)" by (rule binade_upper)
    have "(2::real) powi (binade x + 1) \<le> 2 powi L"
      using True by (intro powi_two_mono) simp
    with 1 2 show False by simp
  next
    case False
    with n have l: "L < binade x" by simp
    then have "- 1022 < binade x" using assms(1) by simp
    then have 1: "2 powi (binade x) \<le> \<bar>x\<bar>" by (rule binade_lower)
    have "L < 1023" using l binade_range(2) [of x] by simp
    then have 2: "\<bar>x\<bar> < 2 powi (L + 1)" by (rule assms(4))
    have "(2::real) powi (L + 1) \<le> 2 powi (binade x)"
      using l by (intro powi_two_mono) simp
    with 1 2 show False by simp
  qed
qed

lemma binade_abs: "binade \<bar>x\<bar> = binade x"
  by (simp add: binade_def)


lemma ulp_abs: "ulp \<bar>x\<bar> = ulp x"
  by (simp add: ulp_def binade_abs)


lemma round_half_even_of_int: "round_half_even (of_int k) = k"
  by (simp add: round_half_even_def)












lemma round_double_id: "is_double v \<Longrightarrow> round_double v = Finite v"
  by (simp add: is_double_def)

text \<open>Rounding a real whose binade is known.\<close>

lemma round_double_pos:
  assumes "0 < x" "- 1022 \<le> L" "L \<le> 1023" "2 powi L \<le> x" "x < 2 powi (L + 1)"
  shows "round_double x =
           (if (2::real) ^ 1024 \<le> real_of_int (round_half_even (x / 2 powi (L - 52))) * 2 powi (L - 52)
            then PInf
            else Finite (real_of_int (round_half_even (x / 2 powi (L - 52))) * 2 powi (L - 52)))"
proof -
  have "binade x = L" using assms by (intro binade_eqI) simp_all
  then have "round_mag \<bar>x\<bar> = of_int (round_half_even (x / 2 powi (L - 52))) * 2 powi (L - 52)"
    using assms(1) by (simp add: round_mag_def ulp_def)
  then show ?thesis using assms(1) by (simp add: round_double_def)
qed


text \<open>The doubles of the literals \<open>0.1\<close> and \<open>0.99\<close>, and some doubles.\<close>

lemma double_tenth: "round_double (1 / 10) = Finite (3602879701896397 / 36028797018963968)"
  by (simp add: round_double_pos [where L = "- 4"] round_half_even_def power_int_minus Let_def)

lemma double_099: "round_double (99 / 100) = Finite (4458563631096791 / 4503599627370496)"
  by (simp add: round_double_pos [where L = "- 1"] round_half_even_def power_int_minus Let_def)

lemma round_double_0: "round_double 0 = Finite 0"
  by (simp add: round_double_def)

lemma round_double_1: "round_double 1 = Finite 1"
  by (simp add: round_double_pos [where L = 0] round_half_even_def power_int_minus)

lemma is_double_1: "is_double 1"
  by (simp add: is_double_def round_double_1)


text \<open>
  Two temporal-difference steps computed in doubles. From 1/2 towards 1 at the rate
  \<open>0.1\<close> the result is the double \<open>0.55\<close>. From 1 towards the double just below 1 at
  the rate 1/2 the exact result \<open>1 - 2^-54\<close> is a tie and rounds back to 1.
\<close>

lemma td_step_example:
  "fl_add (Finite (1 / 2))
     (fl_mul (Finite (3602879701896397 / 36028797018963968)) (fl_sub (Finite 1) (Finite (1 / 2))))
   = Finite (2476979795053773 / 4503599627370496)"
  by (simp add: round_double_pos [where L = "- 1"] round_double_pos [where L = "- 5"]
      round_half_even_def power_int_minus Let_def)


section \<open>The value table: update and lookup\<close>








text \<open>
  C10. When the predecessor or the successor has no entry, \<open>update_value\<close> raises
  KeyError and the table after the call is the table before it.
\<close>

theorem update_value_missing_key:
  assumes "val (get_state_hash s) = None \<or> val (get_state_hash s') = None"
  shows "update_value val s s' rate = (Inl KeyError, val)"
  using assms by (auto simp: update_value_def split: option.splits)

theorem update_value_missing_key_witness:
  "update_value two_entry_table x_wins_top_row TicTacToe_init (round_double (1 / 10))
     = (Inl KeyError, two_entry_table)
   \<and> update_value two_entry_table TicTacToe_init x_wins_top_row (round_double (1 / 10))
     = (Inl KeyError, two_entry_table)"
proof -
  have "two_entry_table (get_state_hash x_wins_top_row) = None"
    by (simp add: two_entry_table_def get_state_hash_def play_00 x_wins_top_row_eq)
      (simp add: TicTacToe_init_def)
  then show ?thesis
    using update_value_missing_key [of two_entry_table x_wins_top_row TicTacToe_init "round_double (1 / 10)"]
      update_value_missing_key [of two_entry_table TicTacToe_init x_wins_top_row "round_double (1 / 10)"]
    by simp
qed

section \<open>The agent\<close>

lemma before_x_wins_eq: "before_x_wins =
  \<lparr>board = [1, 1, 0, 0, - 1, 0, 0, 0, - 1], current_player = Player_X, game_over = False,
          winner = None,
          move_history =
            [(0, 0, Player_X), (1, 1, Player_O), (0, 1, Player_X), (2, 2, Player_O)]\<rparr>"
  by (simp add: before_x_wins_def play_def game_defs Let_def)

text \<open>
  C8. \<open>lost_game\<close> leaves the exploration rate, the decay, the learning rate and every
  role's cursor as they were. When the role has a cursor and both the cursor and the
  given game have entries \<open>v\<close> and \<open>v'\<close> in the table, the call succeeds and stores for
  the cursor the temporal-difference value \<open>v + alpha * (v' - v)\<close>, computed in doubles
  with the agent's learning rate, and no other entry changes. When the role has no
  cursor, or one of the two entries is missing, the call raises KeyError and changes
  nothing.
\<close>

theorem lost_game_td_update:
  "exploration (snd (lost_game a game player)) = exploration a
   \<and> exploration_decay (snd (lost_game a game player)) = exploration_decay a
   \<and> alpha (snd (lost_game a game player)) = alpha a
   \<and> previous_state (snd (lost_game a game player)) = previous_state a
   \<and> (case previous_state a player of
        None \<Rightarrow> lost_game a game player = (Inl KeyError, a)
      | Some prev \<Rightarrow>
          (case (value_function a (get_state_hash prev), value_function a (get_state_hash game)) of
             (Some v, Some v') \<Rightarrow>
               lost_game a game player =
                 (Inr (),
                  a\<lparr>value_function :=
                      (value_function a)
                        (get_state_hash prev \<mapsto> fl_add v (fl_mul (alpha a) (fl_sub v' v)))\<rparr>)
           | _ \<Rightarrow> lost_game a game player = (Inl KeyError, a)))"
  by (simp add: lost_game_def update_value_def split: option.splits)

theorem lost_game_td_update_witness:
  "is_game_over x_wins_top_row
   \<and> lost_game end_agent x_wins_top_row Player_O
       = (Inr (),
          end_agent\<lparr>value_function :=
            end_table(board before_x_wins \<mapsto> Finite (2476979795053773 / 4503599627370496))\<rparr>)
   \<and> lost_game end_agent x_wins_top_row Player_EMPTY = (Inl KeyError, end_agent)
   \<and> lost_game end_agent TicTacToe_init Player_O = (Inl KeyError, end_agent)"
proof -
  have g: "is_game_over x_wins_top_row" by (simp add: x_wins_top_row_eq is_game_over_def)
  have t: "end_table (board before_x_wins) = Some (Finite (1 / 2))"
    "end_table (board x_wins_top_row) = Some (Finite 1)"
    "end_table (board TicTacToe_init) = None"
    by (simp_all add: end_table_def before_x_wins_eq x_wins_top_row_eq TicTacToe_init_def)
  have p: "previous_state end_agent Player_O = Some before_x_wins"
    "previous_state end_agent Player_EMPTY = None"
    "value_function end_agent = end_table"
    "alpha end_agent = Finite (3602879701896397 / 36028797018963968)"
    by (simp_all add: end_agent_def double_tenth)
  show ?thesis
    using lost_game_td_update [of end_agent x_wins_top_row Player_O]
      lost_game_td_update [of end_agent x_wins_top_row Player_EMPTY]
      lost_game_td_update [of end_agent TicTacToe_init Player_O] g
    by (simp add: p t get_state_hash_def td_step_example
        del: fl_add.simps fl_sub.simps fl_mul.simps)
qed

text \<open>The order the scan of \<open>get_move\<close> compares with.\<close>

lemma fl_less_irrefl: "\<not> fl_less v v"
  by (cases v) simp_all

lemma fl_less_trans: "fl_less a b \<Longrightarrow> fl_less b c \<Longrightarrow> fl_less a c"
  by (cases a; cases b; cases c) simp_all

lemma fl_less_asym: "fl_less a b \<Longrightarrow> \<not> fl_less b a"
  by (cases a; cases b) simp_all

lemma fl_less_linear: "a \<noteq> NaN \<Longrightarrow> b \<noteq> NaN \<Longrightarrow> fl_less a b \<or> a = b \<or> fl_less b a"
  by (cases a; cases b) auto

lemma better_irrefl: "\<not> better p v v"
  by (simp add: better_def fl_less_irrefl)

lemma better_trans: "better p a b \<Longrightarrow> better p b c \<Longrightarrow> better p a c"
  unfolding better_def using fl_less_trans by (metis (full_types))

lemma better_asym: "better p a b \<Longrightarrow> \<not> better p b a"
  unfolding better_def using fl_less_asym by (metis (full_types))

lemma better_not_NaN: "better p a b \<Longrightarrow> a \<noteq> NaN \<and> b \<noteq> NaN"
  by (cases a; cases b) (auto simp: better_def split: if_splits)

lemma not_better_trans:
  assumes "v \<noteq> NaN" "\<not> better p v b" "better p a b"
  shows "better p a v \<and> \<not> better p v a"
proof -
  from better_not_NaN [OF assms(3)] have n: "a \<noteq> NaN" "b \<noteq> NaN" by simp_all
  have "better p a v"
  proof (rule ccontr)
    assume c: "\<not> better p a v"
    have "a = v \<or> better p v a"
      using c fl_less_linear [OF n(1) assms(1)] by (auto simp: better_def split: if_splits)
    then have "better p v b"
      using assms(3) better_trans by blast
    with assms(2) show False by simp
  qed
  then show ?thesis using better_asym by blast
qed

lemma best_scan_step:
  assumes "successor_value vf game mv = Some v"
  shows "best_scan vf game player (mv # rest) (bm, bv) =
           (if better player v bv then best_scan vf game player rest (Some mv, v)
            else best_scan vf game player rest (bm, bv))"
  using assms by (simp add: successor_value_def get_value_def better_def)

lemma best_scan_greedy:
  assumes "map (successor_value vf game) moves = map Some vals" and "NaN \<notin> set vals"
  shows "\<exists>bm bv. best_scan vf game player moves (bm0, bv0) = Inr (bm, bv)
           \<and> ((bm = bm0 \<and> bv = bv0 \<and> list_all (\<lambda>v. \<not> better player v bv0) vals)
              \<or> (\<exists>i. bm = Some (moves ! i) \<and> greedy_choice player bv0 vals (Some i, bv)))"
  using assms
proof (induction moves arbitrary: vals bm0 bv0)
  case Nil
  then show ?case by simp
next
  case (Cons mv rest)
  then obtain v vs where vals: "vals = v # vs"
    and v: "successor_value vf game mv = Some v"
    and vs: "map (successor_value vf game) rest = map Some vs"
    by (cases vals) auto
  have nan: "v \<noteq> NaN" "NaN \<notin> set vs" using Cons.prems(2) vals by auto
  show ?case
  proof (cases "better player v bv0")
    case True
    from Cons.IH [OF vs nan(2), of "Some mv" v]
    obtain bm bv where r: "best_scan vf game player rest (Some mv, v) = Inr (bm, bv)"
      and d: "(bm = Some mv \<and> bv = v \<and> list_all (\<lambda>w. \<not> better player w v) vs)
              \<or> (\<exists>i. bm = Some (rest ! i) \<and> greedy_choice player v vs (Some i, bv))"
      by blast
    have e: "best_scan vf game player (mv # rest) (bm0, bv0) = Inr (bm, bv)"
      using best_scan_step [OF v] True r by simp
    from d show ?thesis
    proof
      assume "bm = Some mv \<and> bv = v \<and> list_all (\<lambda>w. \<not> better player w v) vs"
      then have "bm = Some ((mv # rest) ! 0) \<and> greedy_choice player bv0 vals (Some 0, bv)"
        using True by (simp add: greedy_choice_def vals better_irrefl)
      then show ?thesis using e by blast
    next
      assume "\<exists>i. bm = Some (rest ! i) \<and> greedy_choice player v vs (Some i, bv)"
      then obtain i where i: "bm = Some (rest ! i)" "greedy_choice player v vs (Some i, bv)"
        by blast
      then have "bm = Some ((mv # rest) ! Suc i) \<and> greedy_choice player bv0 vals (Some (Suc i), bv)"
        using True by (auto simp: greedy_choice_def vals dest: better_trans better_asym)
      then show ?thesis using e by blast
    qed
  next
    case False
    from Cons.IH [OF vs nan(2), of bm0 bv0]
    obtain bm bv where r: "best_scan vf game player rest (bm0, bv0) = Inr (bm, bv)"
      and d: "(bm = bm0 \<and> bv = bv0 \<and> list_all (\<lambda>w. \<not> better player w bv0) vs)
              \<or> (\<exists>i. bm = Some (rest ! i) \<and> greedy_choice player bv0 vs (Some i, bv))"
      by blast
    have e: "best_scan vf game player (mv # rest) (bm0, bv0) = Inr (bm, bv)"
      using best_scan_step [OF v] False r by simp
    from d show ?thesis
    proof
      assume "bm = bm0 \<and> bv = bv0 \<and> list_all (\<lambda>w. \<not> better player w bv0) vs"
      then show ?thesis using e False by (simp add: vals)
    next
      assume "\<exists>i. bm = Some (rest ! i) \<and> greedy_choice player bv0 vs (Some i, bv)"
      then obtain i where i: "bm = Some (rest ! i)" "greedy_choice player bv0 vs (Some i, bv)"
        by blast
      then have "bm = Some ((mv # rest) ! Suc i) \<and> greedy_choice player bv0 vals (Some (Suc i), bv)"
        using False nan(1) by (auto simp: greedy_choice_def vals dest: not_better_trans)
      then show ?thesis using e by blast
    qed
  qed
qed

lemma get_move_exploit:
  assumes "\<not> fl_less (Finite u) (exploration a)"
    and "best_scan (value_function a) game player (get_valid_moves game) (None, initial_best player)
           = Inr (bm, bv)"
  shows "bm = None \<Longrightarrow>
           get_move a game player u j
             = (Inl TypeError, a\<lparr>exploration := fl_mul (exploration a) (exploration_decay a)\<rparr>)"
    and "fst (get_move a game player u j) = Inr mv \<Longrightarrow> bm = Some mv"
  using assms
  by (auto simp: get_move_def initial_best_def Let_def split: option.splits sum.splits prod.splits)




text \<open>
  C9. With exploration rate 0, when every successor of a legal move has exactly the
  starting bound as its value, no move is selected and \<open>get_move\<close> raises TypeError
  when it indexes the move; the exploration rate has been decayed by then. The
  witness is the empty game, which is not over and has nine legal moves.
\<close>

theorem get_move_no_improving_move:
  assumes "exploration a = Finite 0" and "0 \<le> u"
    and "list_all (\<lambda>mv. successor_value (value_function a) game mv = Some (initial_best player))
           (get_valid_moves game)"
  shows "get_move a game player u j
           = (Inl TypeError, a\<lparr>exploration := fl_mul (exploration a) (exploration_decay a)\<rparr>)"
proof -
  let ?vals = "map (\<lambda>_. initial_best player) (get_valid_moves game)"
  have m: "map (successor_value (value_function a) game) (get_valid_moves game) = map Some ?vals"
    using assms(3) by (simp add: list_all_iff)
  have n: "NaN \<notin> set ?vals" by (auto simp: initial_best_def)
  from best_scan_greedy [OF m n, of player None "initial_best player"]
  obtain bm bv where r: "best_scan (value_function a) game player (get_valid_moves game)
             (None, initial_best player) = Inr (bm, bv)"
    and d: "(bm = None \<and> bv = initial_best player
               \<and> list_all (\<lambda>v. \<not> better player v (initial_best player)) ?vals)
            \<or> (\<exists>i. bm = Some (get_valid_moves game ! i)
                   \<and> greedy_choice player (initial_best player) ?vals (Some i, bv))"
    by blast
  have "bm = None"
    using d by (auto simp: greedy_choice_def better_irrefl)
  moreover have "\<not> fl_less (Finite u) (exploration a)" using assms(1,2) by simp
  ultimately show ?thesis using get_move_exploit(1) [OF _ r] by blast
qed

theorem get_move_no_improving_move_witness:
  "\<not> is_game_over TicTacToe_init
   \<and> length (get_valid_moves TicTacToe_init) = 9
   \<and> get_move losing_agent TicTacToe_init Player_X (1 / 2) 0
       = (Inl TypeError, losing_agent\<lparr>exploration := Finite 0\<rparr>)"
proof -
  have "list_all (\<lambda>mv. successor_value (value_function losing_agent) TicTacToe_init mv
                        = Some (initial_best Player_X))
           (get_valid_moves TicTacToe_init)"
    unfolding get_valid_moves_init
    by (simp add: all_cells_def successor_value_def losing_agent_def losing_table_def play_def
        copy_id get_state_hash_def initial_best_def game_defs Let_def)
  from get_move_no_improving_move [OF _ _ this, of "1 / 2" 0]
  show ?thesis
    by (simp add: losing_agent_def is_game_over_def get_valid_moves_init all_cells_def double_099
        round_double_0)
      (simp add: TicTacToe_init_def)
qed

section \<open>Reachable games are consistent\<close>

lemma get_valid_moves_board: "board s = board t \<Longrightarrow> get_valid_moves s = get_valid_moves t"
  by (simp add: get_valid_moves_def)

lemma check_game_over_fields:
  "game_over (snd (check_game_over s)) = (game_over s \<or> board_outcome (board s) \<noteq> None)"
  "winner (snd (check_game_over s)) = (case board_outcome (board s) of None \<Rightarrow> winner s | Some w \<Rightarrow> w)"
  "current_player (snd (check_game_over s)) = current_player s"
  "board (snd (check_game_over s)) = board s"
proof -
  let ?t = "\<lparr> board = board s, current_player = Player_X, game_over = False, winner = None,
                  move_history = [] \<rparr>"
  have g: "get_valid_moves ?t = get_valid_moves s"
    by (rule get_valid_moves_board) simp
  show "game_over (snd (check_game_over s)) = (game_over s \<or> board_outcome (board s) \<noteq> None)"
    unfolding board_outcome_def check_game_over_def
    by (simp add: g declare_winner_def Let_def split: option.splits)
  show "winner (snd (check_game_over s)) = (case board_outcome (board s) of None \<Rightarrow> winner s | Some w \<Rightarrow> w)"
    unfolding board_outcome_def check_game_over_def
    by (simp add: g declare_winner_def Let_def split: option.splits)
  show "current_player (snd (check_game_over s)) = current_player s"
    unfolding check_game_over_def
    by (simp add: declare_winner_def Let_def split: option.splits)
  show "board (snd (check_game_over s)) = board s"
    by (rule board_check_game_over)
qed

lemma make_move_valid_fields:
  assumes "is_valid_move s row col"
  shows "fst (fst (make_move s row col))"
    and "board (snd (make_move s row col)) = set_cell (board s) row col (player_value (current_player s))"
    and "game_over (snd (make_move s row col))
           = (board_outcome (set_cell (board s) row col (player_value (current_player s))) \<noteq> None)"
    and "winner (snd (make_move s row col))
           = (case board_outcome (set_cell (board s) row col (player_value (current_player s))) of
                None \<Rightarrow> winner s | Some w \<Rightarrow> w)"
    and "current_player (snd (make_move s row col))
           = (if game_over (snd (make_move s row col)) then current_player s
              else if current_player s = Player_X then Player_O else Player_X)"
proof -
  let ?s1 = "s\<lparr> board := set_cell (board s) row col (player_value (current_player s)),
                 move_history := move_history s @ [(row, col, current_player s)] \<rparr>"
  let ?s2 = "snd (check_game_over ?s1)"
  have ng: "\<not> game_over s" using assms by (auto simp: is_valid_move_def split: if_splits)
  have m: "snd (make_move s row col) =
             (if \<not> game_over ?s2
              then ?s2\<lparr> current_player := (if current_player ?s2 = Player_X then Player_O else Player_X) \<rparr>
              else ?s2)"
    using assms by (simp add: make_move_def Let_def split: prod.splits)
  show "fst (fst (make_move s row col))"
    using assms by (simp add: make_move_def Let_def split: prod.splits)
  show "board (snd (make_move s row col)) = set_cell (board s) row col (player_value (current_player s))"
    using assms by (simp add: board_make_move)
  show g: "game_over (snd (make_move s row col))
           = (board_outcome (set_cell (board s) row col (player_value (current_player s))) \<noteq> None)"
    using ng by (simp add: m check_game_over_fields)
  show "winner (snd (make_move s row col))
           = (case board_outcome (set_cell (board s) row col (player_value (current_player s))) of
                None \<Rightarrow> winner s | Some w \<Rightarrow> w)"
    by (simp add: m check_game_over_fields split: option.splits)
  show "current_player (snd (make_move s row col))
           = (if game_over (snd (make_move s row col)) then current_player s
              else if current_player s = Player_X then Player_O else Player_X)"
    unfolding g using ng by (simp add: m check_game_over_fields)
qed

lemma make_move_success_valid:
  "make_move s row col = ((True, reward), s') \<Longrightarrow> is_valid_move s row col \<and> s' = snd (make_move s row col)"
  by (cases "is_valid_move s row col") (auto simp: make_move_def)

lemma board_outcome_init: "board_outcome [0, 0, 0, 0, 0, 0, 0, 0, 0] = None"
  by (simp add: board_outcome_def check_game_over_def range3_def row_sum_def col_sum_def
      main_diag_sum_def anti_diag_sum_def cell_def get_valid_moves_def Let_def)

lemma consistent_init: "consistent TicTacToe_init"
  by (simp add: consistent_def TicTacToe_init_def board_outcome_init)

lemma valid_index:
  assumes "is_valid_move s row col"
  shows "nat (3 * row + col) < 9" and "(row, col) \<in> set all_cells"
    and "cell (board s) row col = 0" and "\<not> game_over s"
proof -
  from assms have r: "0 \<le> row" "row < 3" "0 \<le> col" "col < 3"
    and c: "cell (board s) row col = 0" and g: "\<not> game_over s"
    by (auto simp: is_valid_move_def split: if_splits)
  show "nat (3 * row + col) < 9" using r by simp
  have "row = 0 \<or> row = 1 \<or> row = 2" "col = 0 \<or> col = 1 \<or> col = 2" using r by auto
  then show "(row, col) \<in> set all_cells" by (auto simp: all_cells_def)
  show "cell (board s) row col = 0" by (rule c)
  show "\<not> game_over s" by (rule g)
qed

lemma sum_list_update_int:
  "k < length xs \<Longrightarrow> sum_list (xs[k := x]) = sum_list xs + x - (xs ! k :: int)"
proof (induction xs arbitrary: k)
  case Nil
  then show ?case by simp
next
  case (Cons y ys)
  then show ?case by (cases k) simp_all
qed

lemma consistent_step:
  assumes "consistent s" and "is_valid_move s row col"
  shows "consistent (snd (make_move s row col))"
proof -
  let ?s' = "snd (make_move s row col)"
  let ?p = "player_value (current_player s)"
  let ?i = "nat (3 * row + col)"
  note f = make_move_valid_fields [OF assms(2)]
  note v = valid_index [OF assms(2)]
  from assms(1) have len: "length (board s) = 9" and tri: "set (board s) \<subseteq> {- 1, 0, 1}"
    and sums: "sum_list (board s) = 0 \<or> sum_list (board s) = 1"
    and cp: "(current_player s = Player_X) = ((sum_list (board s) = 0) \<noteq> game_over s)"
    and ne: "current_player s \<noteq> Player_EMPTY"
    and w: "winner s = (case board_outcome (board s) of None \<Rightarrow> None | Some w \<Rightarrow> w)"
    and go: "game_over s = (board_outcome (board s) \<noteq> None)"
    by (simp_all add: consistent_def)
  have b': "board ?s' = (board s)[?i := ?p]" by (simp add: f set_cell_def)
  have p: "?p = (if current_player s = Player_X then 1 else - 1)"
    using ne by (cases "current_player s") simp_all
  have wn: "winner s = None" using w go v(4) by simp
  have 1: "length (board ?s') = 9" by (simp add: b' len)
  have 2: "set (board ?s') \<subseteq> {- 1, 0, 1}"
    using set_update_subset_insert [of "board s" ?i ?p] tri p unfolding b' by auto
  have 3: "game_over ?s' = (board_outcome (board ?s') \<noteq> None)" by (simp add: f)
  have 4: "winner ?s' = (case board_outcome (board ?s') of None \<Rightarrow> None | Some w \<Rightarrow> w)"
    by (simp add: f wn split: option.splits)
  have s': "sum_list (board ?s') = sum_list (board s) + ?p"
  proof -
    have "?i < length (board s)" using v(1) len by simp
    from sum_list_update_int [OF this, of ?p] v(3) show ?thesis
      by (simp add: b' cell_def)
  qed
  have 5: "sum_list (board ?s') = 0 \<or> sum_list (board ?s') = 1"
    using sums cp v(4) by (auto simp: s' p)
  have 6: "(current_player ?s' = Player_X) = ((sum_list (board ?s') = 0) \<noteq> game_over ?s')"
    using sums cp v(4) ne by (cases "current_player s") (auto simp: s' f(5))
  have 7: "current_player ?s' \<noteq> Player_EMPTY"
    using ne by (simp add: f(5))
  show ?thesis
    unfolding consistent_def using 1 2 3 4 5 6 7 by blast
qed

lemma reachable_consistent: "reachable s \<Longrightarrow> consistent s"
proof (induction rule: reachable.induct)
  case reachable_init
  show ?case by (rule consistent_init)
next
  case (reachable_step s row col reward s')
  from make_move_success_valid [OF reachable_step(2)] consistent_step [OF reachable_step(3)]
  show ?case by simp
qed

lemma reachable_same_board:
  assumes "reachable s" "reachable t" "board s = board t"
  shows "game_over s = game_over t" "winner s = winner t" "current_player s = current_player t"
proof -
  from reachable_consistent [OF assms(1)]
  have s: "game_over s = (board_outcome (board s) \<noteq> None)"
    "winner s = (case board_outcome (board s) of None \<Rightarrow> None | Some w \<Rightarrow> w)"
    "(current_player s = Player_X) = ((sum_list (board s) = 0) \<noteq> game_over s)"
    "current_player s \<noteq> Player_EMPTY"
    unfolding consistent_def by blast+
  from reachable_consistent [OF assms(2)]
  have t: "game_over t = (board_outcome (board t) \<noteq> None)"
    "winner t = (case board_outcome (board t) of None \<Rightarrow> None | Some w \<Rightarrow> w)"
    "(current_player t = Player_X) = ((sum_list (board t) = 0) \<noteq> game_over t)"
    "current_player t \<noteq> Player_EMPTY"
    unfolding consistent_def by blast+
  show g: "game_over s = game_over t" unfolding s(1) t(1) assms(3) ..
  show "winner s = winner t" unfolding s(2) t(2) assms(3) ..
  have "(current_player s = Player_X) = (current_player t = Player_X)"
    unfolding s(3) t(3) assms(3) g ..
  then show "current_player s = current_player t"
    using s(4) t(4) by (cases "current_player s"; cases "current_player t") simp_all
qed

section \<open>What the game-over check finds\<close>

lemma line_cases:
  assumes "tri a" "tri b" "tri c" "\<bar>a + b + c\<bar> = 3"
  shows "(a = 1 \<and> b = 1 \<and> c = 1) \<or> (a = - 1 \<and> b = - 1 \<and> c = - 1)"
  using assms unfolding tri_def by auto

lemma tri_nth:
  assumes "set b \<subseteq> {- 1, 0, 1}" "i < length b"
  shows "tri (b ! i)"
proof -
  have "b ! i \<in> {- 1, 0, 1}" using assms nth_mem [of i b] by blast
  then show ?thesis by (auto simp: tri_def)
qed

lemma get_valid_moves_nil_iff:
  assumes "length (board s) = 9"
  shows "(get_valid_moves s = []) = board_full (board s)"
proof -
  from assms obtain a0 a1 a2 a3 a4 a5 a6 a7 a8 where "board s = [a0, a1, a2, a3, a4, a5, a6, a7, a8]"
    by (rule nine_cells)
  then show ?thesis
    by (simp add: get_valid_moves_filter all_cells_def cell_def board_full_def filter_empty_conv)
qed

lemma outcome_skeleton:
  assumes "game_over s0 = False"
  shows "(let s = snd (case R of
                         Some x \<Rightarrow> declare_winner s0 (wr x)
                       | None \<Rightarrow>
                      (case C of
                         Some y \<Rightarrow> declare_winner s0 (wc y)
                       | None \<Rightarrow>
                         if M then declare_winner s0 wm
                         else if A then declare_winner s0 wa
                         else if D then (Some 0, s0\<lparr>game_over := True, winner := None\<rparr>)
                         else (None, s0)))
          in if game_over s then Some (winner s) else None)
         = (case R of
              Some x \<Rightarrow> Some (Some (wr x))
            | None \<Rightarrow>
           (case C of
              Some y \<Rightarrow> Some (Some (wc y))
            | None \<Rightarrow>
              if M then Some (Some wm)
              else if A then Some (Some wa)
              else if D then Some None
              else None))"
  using assms by (simp add: declare_winner_def Let_def split: option.splits)

lemma board_outcome_unfold:
  "board_outcome b =
     (case find (\<lambda>row. \<bar>row_sum b row\<bar> = 3) range3 of
        Some row \<Rightarrow> Some (Some (if cell b row 0 = 1 then Player_X else Player_O))
      | None \<Rightarrow>
     (case find (\<lambda>col. \<bar>col_sum b col\<bar> = 3) range3 of
        Some col \<Rightarrow> Some (Some (if cell b 0 col = 1 then Player_X else Player_O))
      | None \<Rightarrow>
        if \<bar>main_diag_sum b\<bar> = 3
        then Some (Some (if main_diag_sum b = 3 then Player_X else Player_O))
        else if \<bar>anti_diag_sum b\<bar> = 3
        then Some (Some (if anti_diag_sum b = 3 then Player_X else Player_O))
        else if filter (\<lambda>(row, col). cell b row col = 0) all_cells = []
        then Some None
        else None))"
proof -
  define s0 where "s0 = \<lparr> board = b, current_player = Player_X, game_over = False,
                          winner = None, move_history = [] \<rparr>"
  have b: "board s0 = b" by (simp add: s0_def)
  have g: "game_over s0 = False" by (simp add: s0_def)
  have d: "(length (get_valid_moves s0) = 0)
             = (filter (\<lambda>(row, col). cell b row col = 0) all_cells = [])"
    by (simp add: get_valid_moves_filter b)
  have "board_outcome b
          = (let s = snd (check_game_over s0) in if game_over s then Some (winner s) else None)"
    by (simp only: board_outcome_def s0_def)
  also have "\<dots> = (case find (\<lambda>row. \<bar>row_sum b row\<bar> = 3) range3 of
        Some row \<Rightarrow> Some (Some (if cell b row 0 = 1 then Player_X else Player_O))
      | None \<Rightarrow>
     (case find (\<lambda>col. \<bar>col_sum b col\<bar> = 3) range3 of
        Some col \<Rightarrow> Some (Some (if cell b 0 col = 1 then Player_X else Player_O))
      | None \<Rightarrow>
        if \<bar>main_diag_sum b\<bar> = 3
        then Some (Some (if main_diag_sum b = 3 then Player_X else Player_O))
        else if \<bar>anti_diag_sum b\<bar> = 3
        then Some (Some (if anti_diag_sum b = 3 then Player_X else Player_O))
        else if filter (\<lambda>(row, col). cell b row col = 0) all_cells = []
        then Some None
        else None))"
    unfolding check_game_over_def b Let_def [of b] d
    by (rule outcome_skeleton [OF g])
  finally show ?thesis .
qed

lemma board_outcome_cases:
  obtains
    (row) row where "row \<in> set range3" "\<bar>row_sum b row\<bar> = 3"
      "board_outcome b = Some (Some (if cell b row 0 = 1 then Player_X else Player_O))"
  | (col) col where "col \<in> set range3" "\<bar>col_sum b col\<bar> = 3"
      "board_outcome b = Some (Some (if cell b 0 col = 1 then Player_X else Player_O))"
  | (main) "\<bar>main_diag_sum b\<bar> = 3"
      "board_outcome b = Some (Some (if main_diag_sum b = 3 then Player_X else Player_O))"
  | (anti) "\<bar>anti_diag_sum b\<bar> = 3"
      "board_outcome b = Some (Some (if anti_diag_sum b = 3 then Player_X else Player_O))"
  | (draw) "\<forall>row\<in>set range3. \<bar>row_sum b row\<bar> \<noteq> 3" "\<forall>col\<in>set range3. \<bar>col_sum b col\<bar> \<noteq> 3"
      "\<bar>main_diag_sum b\<bar> \<noteq> 3" "\<bar>anti_diag_sum b\<bar> \<noteq> 3"
      "filter (\<lambda>(row, col). cell b row col = 0) all_cells = []" "board_outcome b = Some None"
  | (unfinished) "\<forall>row\<in>set range3. \<bar>row_sum b row\<bar> \<noteq> 3" "\<forall>col\<in>set range3. \<bar>col_sum b col\<bar> \<noteq> 3"
      "\<bar>main_diag_sum b\<bar> \<noteq> 3" "\<bar>anti_diag_sum b\<bar> \<noteq> 3"
      "filter (\<lambda>(row, col). cell b row col = 0) all_cells \<noteq> []" "board_outcome b = None"
proof (cases "find (\<lambda>row. \<bar>row_sum b row\<bar> = 3) range3")
  case (Some r)
  have "r \<in> set range3 \<and> \<bar>row_sum b r\<bar> = 3"
    using Some unfolding find_Some_iff by (metis nth_mem)
  moreover have "board_outcome b = Some (Some (if cell b r 0 = 1 then Player_X else Player_O))"
    by (simp only: board_outcome_unfold Some option.case)
  ultimately show ?thesis using row by blast
next
  case None
  have nr: "\<forall>row\<in>set range3. \<bar>row_sum b row\<bar> \<noteq> 3"
    using None unfolding find_None_iff by blast
  show ?thesis
  proof (cases "find (\<lambda>col. \<bar>col_sum b col\<bar> = 3) range3")
    case (Some c)
    have "c \<in> set range3 \<and> \<bar>col_sum b c\<bar> = 3"
      using Some unfolding find_Some_iff by (metis nth_mem)
    moreover have "board_outcome b = Some (Some (if cell b 0 c = 1 then Player_X else Player_O))"
      by (simp only: board_outcome_unfold None Some option.case)
    ultimately show ?thesis using col by blast
  next
    case cNone: None
    have nc: "\<forall>col\<in>set range3. \<bar>col_sum b col\<bar> \<noteq> 3"
      using cNone unfolding find_None_iff by blast
    note u = board_outcome_unfold [of b, unfolded None cNone option.case]
    show ?thesis
    proof (cases "\<bar>main_diag_sum b\<bar> = 3")
      case True
      moreover have "board_outcome b = Some (Some (if main_diag_sum b = 3 then Player_X else Player_O))"
        by (simp only: u True if_True simp_thms)
      ultimately show ?thesis by (rule main)
    next
      case nm: False
      show ?thesis
      proof (cases "\<bar>anti_diag_sum b\<bar> = 3")
        case True
        moreover have "board_outcome b = Some (Some (if anti_diag_sum b = 3 then Player_X else Player_O))"
          by (simp only: u nm True if_True if_False simp_thms)
        ultimately show ?thesis by (rule anti)
      next
        case na: False
        show ?thesis
        proof (cases "filter (\<lambda>(row, col). cell b row col = 0) all_cells = []")
          case True
          moreover have "board_outcome b = Some None"
            by (simp only: u nm na True if_True if_False simp_thms)
          ultimately show ?thesis using nr nc nm na by (intro draw)
        next
          case False
          moreover have "board_outcome b = None"
            by (simp only: u nm na False if_True if_False simp_thms)
          ultimately show ?thesis using nr nc nm na by (intro unfinished)
        qed
      qed
    qed
  qed
qed

lemma line_three:
  assumes "(i, j, k) \<in> set board_lines" and "tri (b ! i)" "tri (b ! j)" "tri (b ! k)"
    and "\<bar>b ! i + b ! j + b ! k\<bar> = 3"
  shows "(b ! i = 1 \<and> b ! i + b ! j + b ! k = 3 \<and> three_in_a_row b Player_X)
         \<or> (b ! i \<noteq> 1 \<and> b ! i + b ! j + b ! k \<noteq> 3 \<and> three_in_a_row b Player_O)"
proof -
  from line_cases [OF assms(2,3,4,5)]
  show ?thesis
  proof
    assume a: "b ! i = 1 \<and> b ! j = 1 \<and> b ! k = 1"
    then have "three_in_a_row b Player_X"
      using assms(1) by (auto simp: three_in_a_row_def list_ex_iff intro!: bexI [of _ "(i, j, k)"])
    then show ?thesis using a by simp
  next
    assume a: "b ! i = - 1 \<and> b ! j = - 1 \<and> b ! k = - 1"
    then have "three_in_a_row b Player_O"
      using assms(1) by (auto simp: three_in_a_row_def list_ex_iff intro!: bexI [of _ "(i, j, k)"])
    then show ?thesis using a by simp
  qed
qed

section \<open>Winners and lines\<close>

lemma row_line:
  assumes "length b = 9" and "set b \<subseteq> {- 1, 0, 1}" and "row \<in> set range3"
    and "\<bar>row_sum b row\<bar> = 3"
  shows "(cell b row 0 = 1 \<and> three_in_a_row b Player_X)
         \<or> (cell b row 0 \<noteq> 1 \<and> three_in_a_row b Player_O)"
proof -
  from assms(3) consider "row = 0" | "row = 1" | "row = 2" by (auto simp: range3_def)
  then show ?thesis
  proof cases
    case 1
    have m: "(0, 1, 2) \<in> set board_lines" by (simp add: board_lines_def)
    have t: "tri (b ! 0)" "tri (b ! 1)" "tri (b ! 2)"
      using assms(1,2) by (simp_all add: tri_nth)
    have e: "row_sum b row = b ! 0 + b ! 1 + b ! 2" "cell b row 0 = b ! 0"
      by (simp_all add: 1 row_sum_def cell_def)
    from line_three [OF m t] assms(4) show ?thesis unfolding e by blast
  next
    case 2
    have m: "(3, 4, 5) \<in> set board_lines" by (simp add: board_lines_def)
    have t: "tri (b ! 3)" "tri (b ! 4)" "tri (b ! 5)"
      using assms(1,2) by (simp_all add: tri_nth)
    have e: "row_sum b row = b ! 3 + b ! 4 + b ! 5" "cell b row 0 = b ! 3"
      by (simp_all add: 2 row_sum_def cell_def)
    from line_three [OF m t] assms(4) show ?thesis unfolding e by blast
  next
    case 3
    have m: "(6, 7, 8) \<in> set board_lines" by (simp add: board_lines_def)
    have t: "tri (b ! 6)" "tri (b ! 7)" "tri (b ! 8)"
      using assms(1,2) by (simp_all add: tri_nth)
    have e: "row_sum b row = b ! 6 + b ! 7 + b ! 8" "cell b row 0 = b ! 6"
      by (simp_all add: 3 row_sum_def cell_def)
    from line_three [OF m t] assms(4) show ?thesis unfolding e by blast
  qed
qed

lemma col_line:
  assumes "length b = 9" and "set b \<subseteq> {- 1, 0, 1}" and "col \<in> set range3"
    and "\<bar>col_sum b col\<bar> = 3"
  shows "(cell b 0 col = 1 \<and> three_in_a_row b Player_X)
         \<or> (cell b 0 col \<noteq> 1 \<and> three_in_a_row b Player_O)"
proof -
  from assms(3) consider "col = 0" | "col = 1" | "col = 2" by (auto simp: range3_def)
  then show ?thesis
  proof cases
    case 1
    have m: "(0, 3, 6) \<in> set board_lines" by (simp add: board_lines_def)
    have t: "tri (b ! 0)" "tri (b ! 3)" "tri (b ! 6)"
      using assms(1,2) by (simp_all add: tri_nth)
    have e: "col_sum b col = b ! 0 + b ! 3 + b ! 6" "cell b 0 col = b ! 0"
      by (simp_all add: 1 col_sum_def cell_def)
    from line_three [OF m t] assms(4) show ?thesis unfolding e by blast
  next
    case 2
    have m: "(1, 4, 7) \<in> set board_lines" by (simp add: board_lines_def)
    have t: "tri (b ! 1)" "tri (b ! 4)" "tri (b ! 7)"
      using assms(1,2) by (simp_all add: tri_nth)
    have e: "col_sum b col = b ! 1 + b ! 4 + b ! 7" "cell b 0 col = b ! 1"
      by (simp_all add: 2 col_sum_def cell_def)
    from line_three [OF m t] assms(4) show ?thesis unfolding e by blast
  next
    case 3
    have m: "(2, 5, 8) \<in> set board_lines" by (simp add: board_lines_def)
    have t: "tri (b ! 2)" "tri (b ! 5)" "tri (b ! 8)"
      using assms(1,2) by (simp_all add: tri_nth)
    have e: "col_sum b col = b ! 2 + b ! 5 + b ! 8" "cell b 0 col = b ! 2"
      by (simp_all add: 3 col_sum_def cell_def)
    from line_three [OF m t] assms(4) show ?thesis unfolding e by blast
  qed
qed

lemma main_diag_line:
  assumes "length b = 9" and "set b \<subseteq> {- 1, 0, 1}" and "\<bar>main_diag_sum b\<bar> = 3"
  shows "(main_diag_sum b = 3 \<and> three_in_a_row b Player_X)
         \<or> (main_diag_sum b \<noteq> 3 \<and> three_in_a_row b Player_O)"
proof -
  have m: "(0, 4, 8) \<in> set board_lines" by (simp add: board_lines_def)
  have t: "tri (b ! 0)" "tri (b ! 4)" "tri (b ! 8)"
    using assms(1,2) by (simp_all add: tri_nth)
  have e: "main_diag_sum b = b ! 0 + b ! 4 + b ! 8"
    by (simp add: main_diag_sum_def cell_def)
  from line_three [OF m t] assms(3) show ?thesis unfolding e by blast
qed

lemma anti_diag_line:
  assumes "length b = 9" and "set b \<subseteq> {- 1, 0, 1}" and "\<bar>anti_diag_sum b\<bar> = 3"
  shows "(anti_diag_sum b = 3 \<and> three_in_a_row b Player_X)
         \<or> (anti_diag_sum b \<noteq> 3 \<and> three_in_a_row b Player_O)"
proof -
  have m: "(2, 4, 6) \<in> set board_lines" by (simp add: board_lines_def)
  have t: "tri (b ! 2)" "tri (b ! 4)" "tri (b ! 6)"
    using assms(1,2) by (simp_all add: tri_nth)
  have e: "anti_diag_sum b = b ! 2 + b ! 4 + b ! 6"
    by (simp add: anti_diag_sum_def cell_def)
  from line_three [OF m t] assms(3) show ?thesis unfolding e by blast
qed

lemma outcome_three:
  assumes "length b = 9" and "set b \<subseteq> {- 1, 0, 1}" and "board_outcome b = Some (Some w)"
  shows "three_in_a_row b w \<and> (w = Player_X \<or> w = Player_O)"
proof (cases b rule: board_outcome_cases)
  case (row r)
  from row_line [OF assms(1,2) row(1,2)] row(3) assms(3) show ?thesis
    by (auto split: if_splits)
next
  case (col c)
  from col_line [OF assms(1,2) col(1,2)] col(3) assms(3) show ?thesis
    by (auto split: if_splits)
next
  case main
  from main_diag_line [OF assms(1,2) main(1)] main(2) assms(3) show ?thesis
    by (auto split: if_splits)
next
  case anti
  from anti_diag_line [OF assms(1,2) anti(1)] anti(2) assms(3) show ?thesis
    by (auto split: if_splits)
next
  case draw
  from draw(6) assms(3) show ?thesis by simp
next
  case unfinished
  from unfinished(6) assms(3) show ?thesis by simp
qed

lemma three_has_code_line:
  assumes "three_in_a_row b p" and "p \<noteq> Player_EMPTY"
  shows "(\<exists>row\<in>set range3. \<bar>row_sum b row\<bar> = 3) \<or> (\<exists>col\<in>set range3. \<bar>col_sum b col\<bar> = 3)
         \<or> \<bar>main_diag_sum b\<bar> = 3 \<or> \<bar>anti_diag_sum b\<bar> = 3"
proof -
  have v: "\<bar>player_value p + player_value p + player_value p\<bar> = 3"
    using assms(2) by (cases p) simp_all
  from assms(1) obtain i j k where m: "(i, j, k) \<in> set board_lines"
    and c: "b ! i = player_value p" "b ! j = player_value p" "b ! k = player_value p"
    by (auto simp: three_in_a_row_def list_ex_iff)
  have s: "\<bar>b ! i + b ! j + b ! k\<bar> = 3" using v c by simp
  from m consider
      "(i, j, k) = (0, 1, 2)" | "(i, j, k) = (3, 4, 5)" | "(i, j, k) = (6, 7, 8)"
    | "(i, j, k) = (0, 3, 6)" | "(i, j, k) = (1, 4, 7)" | "(i, j, k) = (2, 5, 8)"
    | "(i, j, k) = (0, 4, 8)" | "(i, j, k) = (2, 4, 6)"
    unfolding board_lines_def by auto
  then show ?thesis
  proof cases
    case 1
    then have "\<bar>row_sum b 0\<bar> = 3" using s by (simp add: row_sum_def cell_def)
    moreover have "(0::int) \<in> set range3" by (simp add: range3_def)
    ultimately show ?thesis by blast
  next
    case 2
    then have "\<bar>row_sum b 1\<bar> = 3" using s by (simp add: row_sum_def cell_def)
    moreover have "(1::int) \<in> set range3" by (simp add: range3_def)
    ultimately show ?thesis by blast
  next
    case 3
    then have "\<bar>row_sum b 2\<bar> = 3" using s by (simp add: row_sum_def cell_def)
    moreover have "(2::int) \<in> set range3" by (simp add: range3_def)
    ultimately show ?thesis by blast
  next
    case 4
    then have "\<bar>col_sum b 0\<bar> = 3" using s by (simp add: col_sum_def cell_def)
    moreover have "(0::int) \<in> set range3" by (simp add: range3_def)
    ultimately show ?thesis by blast
  next
    case 5
    then have "\<bar>col_sum b 1\<bar> = 3" using s by (simp add: col_sum_def cell_def)
    moreover have "(1::int) \<in> set range3" by (simp add: range3_def)
    ultimately show ?thesis by blast
  next
    case 6
    then have "\<bar>col_sum b 2\<bar> = 3" using s by (simp add: col_sum_def cell_def)
    moreover have "(2::int) \<in> set range3" by (simp add: range3_def)
    ultimately show ?thesis by blast
  next
    case 7
    then have "\<bar>main_diag_sum b\<bar> = 3" using s by (simp add: main_diag_sum_def cell_def)
    then show ?thesis by blast
  next
    case 8
    then have "\<bar>anti_diag_sum b\<bar> = 3" using s by (simp add: anti_diag_sum_def cell_def)
    then show ?thesis by blast
  qed
qed

lemma outcome_no_winner:
  assumes "board_outcome b = None \<or> board_outcome b = Some None" and "p \<noteq> Player_EMPTY"
  shows "\<not> three_in_a_row b p"
proof
  assume "three_in_a_row b p"
  from three_has_code_line [OF this assms(2)]
  have l: "(\<exists>row\<in>set range3. \<bar>row_sum b row\<bar> = 3) \<or> (\<exists>col\<in>set range3. \<bar>col_sum b col\<bar> = 3)
         \<or> \<bar>main_diag_sum b\<bar> = 3 \<or> \<bar>anti_diag_sum b\<bar> = 3" .
  show False
  proof (cases b rule: board_outcome_cases)
    case (row r)
    from row(3) assms(1) show False by (metis option.distinct(1) option.inject)
  next
    case (col c)
    from col(3) assms(1) show False by (metis option.distinct(1) option.inject)
  next
    case main
    from main(2) assms(1) show False by (metis option.distinct(1) option.inject)
  next
    case anti
    from anti(2) assms(1) show False by (metis option.distinct(1) option.inject)
  next
    case draw
    from draw(1,2,3,4) l show False by blast
  next
    case unfinished
    from unfinished(1,2,3,4) l show False by blast
  qed
qed

lemma outcome_full:
  assumes "length b = 9"
  shows "board_outcome b = Some None \<Longrightarrow> board_full b"
    and "board_outcome b = None \<Longrightarrow> \<not> board_full b"
proof -
  let ?s = "\<lparr> board = b, current_player = Player_X, game_over = False, winner = None,
             move_history = [] \<rparr>"
  have f: "(filter (\<lambda>(row, col). cell b row col = 0) all_cells = []) = board_full b"
    using get_valid_moves_nil_iff [of ?s] assms by (simp add: get_valid_moves_filter)
  show "board_full b" if h: "board_outcome b = Some None"
  proof (cases b rule: board_outcome_cases)
    case (row r)
    from row(3) h show ?thesis by (metis option.distinct(1) option.inject)
  next
    case (col c)
    from col(3) h show ?thesis by (metis option.distinct(1) option.inject)
  next
    case main
    from main(2) h show ?thesis by (metis option.distinct(1) option.inject)
  next
    case anti
    from anti(2) h show ?thesis by (metis option.distinct(1) option.inject)
  next
    case draw
    from draw(5) f show ?thesis by blast
  next
    case unfinished
    from unfinished(6) h show ?thesis by (metis option.distinct(1))
  qed
  show "\<not> board_full b" if h: "board_outcome b = None"
  proof (cases b rule: board_outcome_cases)
    case (row r)
    from row(3) h show ?thesis by (metis option.distinct(1))
  next
    case (col c)
    from col(3) h show ?thesis by (metis option.distinct(1))
  next
    case main
    from main(2) h show ?thesis by (metis option.distinct(1))
  next
    case anti
    from anti(2) h show ?thesis by (metis option.distinct(1))
  next
    case draw
    from draw(6) h show ?thesis by (metis option.distinct(1))
  next
    case unfinished
    from unfinished(5) f show ?thesis by blast
  qed
qed

lemma three_persist:
  assumes "three_in_a_row (b[i := p]) q" and "player_value q \<noteq> p"
  shows "three_in_a_row b q"
proof (cases "i < length b")
  case False
  then show ?thesis using assms(1) by (simp add: list_update_beyond)
next
  case True
  from assms(1) obtain i' j k where m: "(i', j, k) \<in> set board_lines"
    and c: "b[i := p] ! i' = player_value q" "b[i := p] ! j = player_value q"
      "b[i := p] ! k = player_value q"
    by (auto simp: three_in_a_row_def list_ex_iff)
  from c assms(2) True have "b ! i' = player_value q" "b ! j = player_value q" "b ! k = player_value q"
    by (auto simp: nth_list_update split: if_splits)
  then show ?thesis using m by (auto simp: three_in_a_row_def list_ex_iff)
qed

lemma reachable_one_winner:
  assumes "reachable s"
  shows "\<not> (three_in_a_row (board s) Player_X \<and> three_in_a_row (board s) Player_O)"
  using assms
proof (induction rule: reachable.induct)
  case reachable_init
  have "board_outcome (board TicTacToe_init) = None"
    by (simp add: TicTacToe_init_def board_outcome_init)
  then show ?case using outcome_no_winner [of "board TicTacToe_init" Player_X] by simp
next
  case (reachable_step s row col reward s')
  from make_move_success_valid [OF reachable_step(2)]
  have v: "is_valid_move s row col" and s': "s' = snd (make_move s row col)" by simp_all
  have c: "consistent s" using reachable_step(1) by (rule reachable_consistent)
  have "\<not> game_over s" using v by (rule valid_index(4))
  then have n: "board_outcome (board s) = None" using c by (simp add: consistent_def)
  have b': "board s' = (board s)[nat (3 * row + col) := player_value (current_player s)]"
    using make_move_valid_fields(2) [OF v] by (simp add: s' set_cell_def)
  show ?case
  proof
    assume a: "three_in_a_row (board s') Player_X \<and> three_in_a_row (board s') Player_O"
    show False
    proof (cases "current_player s = Player_X")
      case True
      then have "player_value Player_O \<noteq> player_value (current_player s)" by simp
      from three_persist [OF _ this] a have "three_in_a_row (board s) Player_O"
        unfolding b' by blast
      then show False using outcome_no_winner [of "board s" Player_O] n by simp
    next
      case False
      then have "player_value Player_X \<noteq> player_value (current_player s)"
        by (cases "current_player s") simp_all
      from three_persist [OF _ this] a have "three_in_a_row (board s) Player_X"
        unfolding b' by blast
      then show False using outcome_no_winner [of "board s" Player_X] n by simp
    qed
  qed
qed

lemma reachable_outcome:
  assumes "reachable s"
  shows "winner_value (winner s) = Inr (outcome_value (board s))"
    and "game_over s = (three_in_a_row (board s) Player_X \<or> three_in_a_row (board s) Player_O
                        \<or> board_full (board s))"
proof -
  let ?b = "board s"
  have c: "consistent s" using assms by (rule reachable_consistent)
  then have len: "length ?b = 9" and tri: "set ?b \<subseteq> {- 1, 0, 1}"
    and w: "winner s = (case board_outcome ?b of None \<Rightarrow> None | Some w \<Rightarrow> w)"
    and go: "game_over s = (board_outcome ?b \<noteq> None)"
    by (simp_all add: consistent_def)
  note one = reachable_one_winner [OF assms]
  have "winner_value (winner s) = Inr (outcome_value ?b)
        \<and> game_over s = (three_in_a_row ?b Player_X \<or> three_in_a_row ?b Player_O \<or> board_full ?b)"
  proof (cases "board_outcome ?b")
    case None
    then show ?thesis
      using outcome_no_winner [of ?b Player_X] outcome_no_winner [of ?b Player_O]
        outcome_full(2) [OF len] w go
      by (simp add: winner_value_def outcome_value_def)
  next
    case (Some r)
    show ?thesis
    proof (cases r)
      case None
      then show ?thesis
        using Some outcome_no_winner [of ?b Player_X] outcome_no_winner [of ?b Player_O]
          outcome_full(1) [OF len] w go
        by (simp add: winner_value_def outcome_value_def)
    next
      case (Some p)
      with \<open>board_outcome ?b = Some r\<close> have o: "board_outcome ?b = Some (Some p)" by simp
      from outcome_three [OF len tri o] one show ?thesis
        using w go o by (auto simp: winner_value_def outcome_value_def)
    qed
  qed
  then show "winner_value (winner s) = Inr (outcome_value (board s))"
    and "game_over s = (three_in_a_row (board s) Player_X \<or> three_in_a_row (board s) Player_O
                        \<or> board_full (board s))"
    by simp_all
qed

section \<open>The enumeration builds the table of reachable boards\<close>

declare vf_loop.simps [simp del]

lemma set_add_set: "set (set_add s xs) \<subseteq> insert s (set xs)"
  by (auto simp: set_add_def)

lemma set_add_boards: "board ` set (set_add s xs) = insert (board s) (board ` set xs)"
  by (auto simp: set_add_def get_state_hash_def)

lemma foldl_set_add_set:
  "set (foldl (\<lambda>os mv. set_add (f mv) os) xs mvs) \<subseteq> set xs \<union> f ` set mvs"
proof (induction mvs arbitrary: xs)
  case Nil
  show ?case by simp
next
  case (Cons mv mvs)
  have "set (foldl (\<lambda>os mv. set_add (f mv) os) (set_add (f mv) xs) mvs)
          \<subseteq> set (set_add (f mv) xs) \<union> f ` set mvs"
    by (rule Cons.IH)
  also have "\<dots> \<subseteq> set xs \<union> f ` set (mv # mvs)"
    using set_add_set [of "f mv" xs] by auto
  finally show ?case by simp
qed

lemma foldl_set_add_boards:
  "board ` set (foldl (\<lambda>os mv. set_add (f mv) os) xs mvs)
     = board ` set xs \<union> (\<lambda>mv. board (f mv)) ` set mvs"
proof (induction mvs arbitrary: xs)
  case Nil
  show ?case by simp
next
  case (Cons mv mvs)
  have "board ` set (foldl (\<lambda>os mv. set_add (f mv) os) (set_add (f mv) xs) mvs)
          = board ` set (set_add (f mv) xs) \<union> (\<lambda>mv. board (f mv)) ` set mvs"
    by (rule Cons.IH)
  then show ?case by (auto simp add: set_add_boards)
qed

lemma add_successors_set:
  "set (add_successors s rest)
     \<subseteq> set rest \<union> (\<lambda>mv. snd (make_move s (fst mv) (snd mv))) ` set (get_valid_moves s)"
  unfolding add_successors_def copy_id by (rule foldl_set_add_set)

lemma add_successors_boards:
  "board ` set (add_successors s rest)
     = board ` set rest \<union> (\<lambda>mv. board (snd (make_move s (fst mv) (snd mv)))) ` set (get_valid_moves s)"
  unfolding add_successors_def copy_id by (rule foldl_set_add_boards)

lemma reachable_make_move:
  assumes "reachable s"
  shows "reachable (snd (make_move s row col))"
proof (cases "is_valid_move s row col")
  case False
  then show ?thesis using assms by (simp add: make_move_def)
next
  case True
  have "fst (fst (make_move s row col))" using True by (rule make_move_valid_fields(1))
  then have "make_move s row col
               = ((True, snd (fst (make_move s row col))), snd (make_move s row col))"
    by (simp add: prod_eq_iff)
  with assms show ?thesis by (rule reachable_step)
qed

lemma set_pop_sets:
  assumes "i < length xs"
  shows "fst (set_pop i xs) \<in> set xs"
    and "set (snd (set_pop i xs)) \<subseteq> set xs"
    and "set xs \<subseteq> insert (fst (set_pop i xs)) (set (snd (set_pop i xs)))"
proof -
  have e: "xs = take i xs @ xs ! i # drop (Suc i) xs"
    using assms by (rule id_take_nth_drop)
  show "fst (set_pop i xs) \<in> set xs" using assms by (simp add: set_pop_def)
  show "set (snd (set_pop i xs)) \<subseteq> set xs"
    using set_take_subset [of i xs] set_drop_subset [of "Suc i" xs] by (auto simp: set_pop_def)
  have "set xs = set (take i xs @ xs ! i # drop (Suc i) xs)" using e by simp
  then show "set xs \<subseteq> insert (fst (set_pop i xs)) (set (snd (set_pop i xs)))"
    by (auto simp: set_pop_def)
qed

lemma valid_same_board:
  assumes "reachable s" "reachable t" "board s = board t"
  shows "is_valid_move t row col = is_valid_move s row col"
    and "board (snd (make_move t row col)) = board (snd (make_move s row col))"
proof -
  note e = reachable_same_board [OF assms]
  show v: "is_valid_move t row col = is_valid_move s row col"
    using e(1) assms(3) by (simp add: is_valid_move_def)
  show "board (snd (make_move t row col)) = board (snd (make_move s row col))"
    using v e(3) assms(3) by (simp add: board_make_move)
qed

lemma valid_in_moves:
  assumes "is_valid_move s row col"
  shows "(row, col) \<in> set (get_valid_moves s)"
  using valid_index(2,3) [OF assms] by (simp add: get_valid_moves_filter)

lemma vf_invariant_init: "vf_invariant (set_add TicTacToe_init []) Map.empty"
  by (simp add: vf_invariant_def set_add_def reachable_init)

lemma vf_invariant_skip:
  assumes "vf_invariant os val" and "i < length os"
    and "val (get_state_hash (fst (set_pop i os))) \<noteq> None"
  shows "vf_invariant (snd (set_pop i os)) val"
proof -
  let ?state = "fst (set_pop i os)" and ?rest = "snd (set_pop i os)"
  note p = set_pop_sets [OF assms(2)]
  from assms(1) have a: "\<forall>s\<in>set os. reachable s"
    and b: "\<forall>b v. val b = Some v \<longrightarrow>
             (\<exists>s. reachable s \<and> board s = b \<and> winner_value (winner s) = Inr v)"
    and c: "\<forall>s row col. reachable s \<and> val (board s) \<noteq> None \<and> is_valid_move s row col \<longrightarrow>
             val (board (snd (make_move s row col))) \<noteq> None
             \<or> board (snd (make_move s row col)) \<in> board ` set os"
    and d: "val (board TicTacToe_init) \<noteq> None \<or> board TicTacToe_init \<in> board ` set os"
    by (simp_all add: vf_invariant_def)
  have k: "val (board ?state) \<noteq> None" using assms(3) by (simp add: get_state_hash_def)
  have cover: "val x \<noteq> None \<or> x \<in> board ` set ?rest"
    if "val x \<noteq> None \<or> x \<in> board ` set os" for x
  proof (cases "val x \<noteq> None")
    case True
    then show ?thesis by simp
  next
    case False
    with that obtain u where u: "u \<in> set os" "x = board u" by blast
    with False k have "u \<noteq> ?state" by auto
    with u(1) p(3) have "u \<in> set ?rest" by blast
    with u(2) show ?thesis by blast
  qed
  have a': "\<forall>s\<in>set ?rest. reachable s" using a p(2) by blast
  have c': "\<forall>s row col. reachable s \<and> val (board s) \<noteq> None \<and> is_valid_move s row col \<longrightarrow>
             val (board (snd (make_move s row col))) \<noteq> None
             \<or> board (snd (make_move s row col)) \<in> board ` set ?rest"
    using c cover by blast
  have d': "val (board TicTacToe_init) \<noteq> None \<or> board TicTacToe_init \<in> board ` set ?rest"
    using d by (rule cover)
  show ?thesis unfolding vf_invariant_def using a' b c' d' by blast
qed

lemma vf_invariant_expand:
  assumes "vf_invariant os val" and "i < length os"
    and "val (get_state_hash (fst (set_pop i os))) = None"
    and "winner_value (get_winner (fst (set_pop i os))) = Inr v"
  shows "vf_invariant (add_successors (fst (set_pop i os)) (snd (set_pop i os)))
           (val(get_state_hash (fst (set_pop i os)) \<mapsto> v))"
proof -
  let ?state = "fst (set_pop i os)" and ?rest = "snd (set_pop i os)"
  let ?val = "val(board ?state \<mapsto> v)"
  let ?os = "add_successors ?state ?rest"
  note p = set_pop_sets [OF assms(2)]
  from assms(1) have a: "\<forall>s\<in>set os. reachable s"
    and b: "\<forall>b v. val b = Some v \<longrightarrow>
             (\<exists>s. reachable s \<and> board s = b \<and> winner_value (winner s) = Inr v)"
    and c: "\<forall>s row col. reachable s \<and> val (board s) \<noteq> None \<and> is_valid_move s row col \<longrightarrow>
             val (board (snd (make_move s row col))) \<noteq> None
             \<or> board (snd (make_move s row col)) \<in> board ` set os"
    and d: "val (board TicTacToe_init) \<noteq> None \<or> board TicTacToe_init \<in> board ` set os"
    by (simp_all add: vf_invariant_def)
  have rs: "reachable ?state" using a p(1) by blast
  have sub: "board ` set ?rest \<subseteq> board ` set ?os"
    by (simp add: add_successors_boards)
  have cover: "?val x \<noteq> None \<or> x \<in> board ` set ?os"
    if "val x \<noteq> None \<or> x \<in> board ` set os" for x
  proof (cases "val x \<noteq> None \<or> x = board ?state")
    case True
    then show ?thesis by auto
  next
    case False
    with that obtain u where u: "u \<in> set os" "x = board u" by blast
    with False have "u \<noteq> ?state" by auto
    with u(1) p(3) have "u \<in> set ?rest" by blast
    with u(2) sub show ?thesis by blast
  qed
  have a': "\<forall>s\<in>set ?os. reachable s"
  proof
    fix s assume "s \<in> set ?os"
    with add_successors_set [of ?state ?rest]
    have "s \<in> set ?rest \<or> (\<exists>mv. s = snd (make_move ?state (fst mv) (snd mv)))" by blast
    then show "reachable s"
      using a p(2) reachable_make_move [OF rs] by blast
  qed
  have b': "\<forall>b w. ?val b = Some w \<longrightarrow>
             (\<exists>s. reachable s \<and> board s = b \<and> winner_value (winner s) = Inr w)"
  proof (intro allI impI)
    fix b' w assume h: "?val b' = Some w"
    show "\<exists>s. reachable s \<and> board s = b' \<and> winner_value (winner s) = Inr w"
    proof (cases "b' = board ?state")
      case True
      with h have "w = v" by simp
      with True rs assms(4) show ?thesis by (auto simp: get_winner_def)
    next
      case False
      with h have "val b' = Some w" by simp
      with b show ?thesis by blast
    qed
  qed
  have c': "\<forall>s row col. reachable s \<and> ?val (board s) \<noteq> None \<and> is_valid_move s row col \<longrightarrow>
             ?val (board (snd (make_move s row col))) \<noteq> None
             \<or> board (snd (make_move s row col)) \<in> board ` set ?os"
  proof (intro allI impI)
    fix s row col
    assume h: "reachable s \<and> ?val (board s) \<noteq> None \<and> is_valid_move s row col"
    show "?val (board (snd (make_move s row col))) \<noteq> None
             \<or> board (snd (make_move s row col)) \<in> board ` set ?os"
    proof (cases "board s = board ?state")
      case True
      from valid_same_board [OF rs _ True [symmetric], of row col] h
      have v: "is_valid_move ?state row col"
        and e: "board (snd (make_move s row col)) = board (snd (make_move ?state row col))"
        by simp_all
      from valid_in_moves [OF v]
      have "board (snd (make_move ?state row col))
              \<in> (\<lambda>mv. board (snd (make_move ?state (fst mv) (snd mv)))) ` set (get_valid_moves ?state)"
        by force
      then show ?thesis unfolding e by (simp add: add_successors_boards)
    next
      case False
      with h have "val (board s) \<noteq> None" by simp
      with c h have "val (board (snd (make_move s row col))) \<noteq> None
             \<or> board (snd (make_move s row col)) \<in> board ` set os" by blast
      then show ?thesis by (rule cover)
    qed
  qed
  have d': "?val (board TicTacToe_init) \<noteq> None \<or> board TicTacToe_init \<in> board ` set ?os"
    using d by (rule cover)
  show ?thesis unfolding vf_invariant_def get_state_hash_def using a' b' c' d' by blast
qed

lemma vf_invariant_final:
  assumes "vf_invariant [] val"
  shows "dom val = {board s | s. reachable s}"
proof -
  from assms have b: "\<forall>b v. val b = Some v \<longrightarrow>
             (\<exists>s. reachable s \<and> board s = b \<and> winner_value (winner s) = Inr v)"
    and c: "\<forall>s row col. reachable s \<and> val (board s) \<noteq> None \<and> is_valid_move s row col \<longrightarrow>
             val (board (snd (make_move s row col))) \<noteq> None"
    and d: "val (board TicTacToe_init) \<noteq> None"
    by (simp_all add: vf_invariant_def)
  have "val (board s) \<noteq> None" if "reachable s" for s
    using that
  proof (induction rule: reachable.induct)
    case reachable_init
    show ?case by (rule d)
  next
    case (reachable_step s row col reward s')
    from make_move_success_valid [OF reachable_step(2)] reachable_step(1,3) c
    show ?case by auto
  qed
  then have "{board s | s. reachable s} \<subseteq> dom val" by auto
  moreover have "dom val \<subseteq> {board s | s. reachable s}" using b by (auto simp: dom_def)
  ultimately show ?thesis by blast
qed

lemma vf_loop_correct:
  "vf_invariant os val \<Longrightarrow> \<exists>tbl. vf_loop pick n os val = Inr tbl \<and> vf_invariant [] tbl"
proof (induction pick n os val rule: vf_loop.induct)
  case (1 pick n os val)
  show ?case
  proof (cases "0 < length os")
    case False
    then have "vf_loop pick n os val = Inr val" by (subst vf_loop.simps) simp
    moreover have "vf_invariant [] val" using False "1.prems" by simp
    ultimately show ?thesis by blast
  next
    case True
    let ?i = "pick n mod length os"
    let ?state = "fst (set_pop ?i os)" and ?rest = "snd (set_pop ?i os)"
    have i: "?i < length os" using True by simp
    show ?thesis
    proof (cases "val (get_state_hash ?state) \<noteq> None")
      case seen: True
      have step: "vf_loop pick n os val = vf_loop pick (Suc n) ?rest val"
        using True seen by (simp add: vf_loop.simps [of pick n os val] Let_def)
      have "vf_invariant ?rest val"
        using "1.prems" i seen by (rule vf_invariant_skip)
      from "1.IH"(1) [OF True refl refl refl seen this] step show ?thesis by simp
    next
      case new: False
      have "reachable ?state"
        using "1.prems" set_pop_sets(1) [OF i] by (simp add: vf_invariant_def)
      then have w: "winner_value (get_winner ?state) = Inr (outcome_value (board ?state))"
        by (simp add: get_winner_def reachable_outcome(1))
      have step: "vf_loop pick n os val
                    = vf_loop pick (Suc n) (add_successors ?state ?rest)
                        (val(get_state_hash ?state \<mapsto> outcome_value (board ?state)))"
        using True new w by (simp add: vf_loop.simps [of pick n os val] Let_def)
      have "vf_invariant (add_successors ?state ?rest)
              (val(get_state_hash ?state \<mapsto> outcome_value (board ?state)))"
        using "1.prems" i _ w by (rule vf_invariant_expand) (use new in simp)
      from "1.IH"(2) [OF True refl refl refl new w this] step show ?thesis
        by (simp add: fun_upd_def)
    qed
  qed
qed

lemma ValueFunction_init_correct:
  "\<exists>tbl. ValueFunction_init pick = Inr tbl \<and> vf_invariant [] tbl"
  unfolding ValueFunction_init_def using vf_invariant_init by (rule vf_loop_correct)

section \<open>The initial table and its terminal values\<close>

lemma reachable_play: "reachable s \<Longrightarrow> reachable (play s moves)"
  unfolding play_def
  by (induction moves arbitrary: s) (simp_all add: reachable_make_move)

lemma reachable_x_wins_top_row: "reachable x_wins_top_row"
  unfolding x_wins_top_row_def using reachable_init by (rule reachable_play)

lemma three_x_wins_top_row: "three_in_a_row (board x_wins_top_row) Player_X"
  by (simp add: x_wins_top_row_eq three_in_a_row_def board_lines_def)

lemma init_table_value:
  assumes "ValueFunction_init pick = Inr tbl" and "reachable s"
  shows "tbl (board s) = Some (outcome_value (board s))"
proof -
  from ValueFunction_init_correct [of pick] assms(1) have inv: "vf_invariant [] tbl" by auto
  from vf_invariant_final [OF inv] assms(2) have "board s \<in> dom tbl" by blast
  then obtain v where v: "tbl (board s) = Some v" by blast
  with inv obtain s' where s': "reachable s'" "board s' = board s" "winner_value (winner s') = Inr v"
    unfolding vf_invariant_def by blast
  from reachable_outcome(1) [OF s'(1)] s'(2,3) have "v = outcome_value (board s)" by simp
  with v show ?thesis by simp
qed

text \<open>
  C1. \<open>ValueFunction.__init__\<close> returns, whatever order \<open>pop()\<close> takes the open states
  in, and the keys of the table it builds are exactly the boards of the states reachable
  from the empty game by legal moves. A dict holds one entry per key and two games are
  the same key when their boards agree, so every reachable state has exactly one entry
  and no other board has one; no move is legal once a game is over, so no state past a
  terminal position is reachable.
\<close>

theorem enumeration_complete:
  "\<exists>tbl. ValueFunction_init pick = Inr tbl \<and> dom tbl = {board s | s. reachable s}"
  using ValueFunction_init_correct [of pick] vf_invariant_final by blast

theorem enumeration_complete_witness:
  "\<exists>tbl. ValueFunction_init (\<lambda>n. 0) = Inr tbl
         \<and> board x_wins_top_row \<in> dom tbl
         \<and> [1, 1, 1, - 1, - 1, - 1, 0, 0, 0] \<notin> dom tbl"
proof -
  from enumeration_complete [of "\<lambda>n. 0"] obtain tbl
    where t: "ValueFunction_init (\<lambda>n. 0) = Inr tbl" "dom tbl = {board s | s. reachable s}"
    by blast
  have "board x_wins_top_row \<in> dom tbl"
    using t(2) reachable_x_wins_top_row by blast
  moreover have "[1, 1, 1, - 1, - 1, - 1, 0, 0, 0] \<notin> dom tbl"
  proof
    assume "[1, 1, 1, - 1, - 1, - 1, 0, 0, 0] \<in> dom tbl"
    with t(2) obtain s where s: "reachable s" "board s = [1, 1, 1, - 1, - 1, - 1, 0, 0, 0]"
      by auto
    have "three_in_a_row (board s) Player_X \<and> three_in_a_row (board s) Player_O"
      by (simp add: s(2) three_in_a_row_def board_lines_def)
    with reachable_one_winner [OF s(1)] show False by blast
  qed
  ultimately show ?thesis using t(1) by blast
qed

text \<open>
  C2. In the table \<open>__init__\<close> builds, a reachable state has the value 1 when X has
  three in a row, -1 when O has, and 0 otherwise. A reachable state is over exactly
  when one of the two has three in a row or the board is full, the two never both have
  three in a row, and a state that is not over has the value 0.
\<close>

theorem initial_values:
  assumes "ValueFunction_init pick = Inr tbl" and "reachable s"
  shows "tbl (get_state_hash s)
           = Some (if three_in_a_row (board s) Player_X then Finite 1
                   else if three_in_a_row (board s) Player_O then Finite (- 1) else Finite 0)
         \<and> is_game_over s
             = (three_in_a_row (board s) Player_X \<or> three_in_a_row (board s) Player_O
                \<or> board_full (board s))
         \<and> \<not> (three_in_a_row (board s) Player_X \<and> three_in_a_row (board s) Player_O)
         \<and> (\<not> is_game_over s \<longrightarrow> tbl (get_state_hash s) = Some (Finite 0))"
proof -
  have v: "tbl (get_state_hash s)
           = Some (if three_in_a_row (board s) Player_X then Finite 1
                   else if three_in_a_row (board s) Player_O then Finite (- 1) else Finite 0)"
    using init_table_value [OF assms] by (simp add: get_state_hash_def outcome_value_def)
  have g: "is_game_over s
             = (three_in_a_row (board s) Player_X \<or> three_in_a_row (board s) Player_O
                \<or> board_full (board s))"
    using reachable_outcome(2) [OF assms(2)] by (simp add: is_game_over_def)
  have o: "\<not> (three_in_a_row (board s) Player_X \<and> three_in_a_row (board s) Player_O)"
    using assms(2) by (rule reachable_one_winner)
  have "tbl (get_state_hash s) = Some (Finite 0)" if "\<not> is_game_over s"
    using that v g by simp
  with v g o show ?thesis by blast
qed

theorem initial_values_witness:
  "\<exists>tbl. ValueFunction_init (\<lambda>n. 0) = Inr tbl
         \<and> tbl (get_state_hash x_wins_top_row) = Some (Finite 1)
         \<and> is_game_over x_wins_top_row
         \<and> tbl (get_state_hash TicTacToe_init) = Some (Finite 0)"
proof -
  from ValueFunction_init_correct [of "\<lambda>n. 0"] obtain tbl
    where t: "ValueFunction_init (\<lambda>n. 0) = Inr tbl" by blast
  have i: "\<not> is_game_over TicTacToe_init"
    by (simp add: is_game_over_def TicTacToe_init_def)
  from initial_values [OF t reachable_x_wins_top_row] three_x_wins_top_row
  have "tbl (get_state_hash x_wins_top_row) = Some (Finite 1)" "is_game_over x_wins_top_row"
    by simp_all
  moreover from initial_values [OF t reachable_init] i
  have "tbl (get_state_hash TicTacToe_init) = Some (Finite 0)" by blast
  ultimately show ?thesis using t by blast
qed

lemma update_value_other_key:
  "get_state_hash s \<noteq> k \<Longrightarrow> snd (update_value val s s' rate) k = val k"
  by (simp add: update_value_def split: option.splits)

lemma run_calls_frame:
  assumes "\<forall>c\<in>set calls. \<forall>s s' rate. c = Update s s' rate \<longrightarrow> get_state_hash s \<noteq> k"
  shows "run_calls val calls k = val k"
  using assms unfolding run_calls_def
proof (induction calls arbitrary: val)
  case Nil
  show ?case by simp
next
  case (Cons c calls)
  have "run_call val c k = val k"
  proof (cases c)
    case (Update s s' rate)
    with Cons.prems have "get_state_hash s \<noteq> k" by simp
    then show ?thesis by (simp add: Update update_value_other_key)
  next
    case (Get s)
    then show ?thesis by simp
  qed
  moreover have "foldl run_call (run_call val c) calls k = run_call val c k"
    using Cons.prems by (intro Cons.IH) simp
  ultimately show ?case by simp
qed

text \<open>
  C4. Start from the table \<open>__init__\<close> builds and make any sequence of \<open>update_value\<close>
  and \<open>get_value\<close> calls in which the first argument of every \<open>update_value\<close> is a
  reachable state that is not over. Then every reachable terminal state still has the
  value it was initialised with: 1, -1 or 0 by its outcome.
\<close>

theorem terminal_values_fixed:
  assumes "ValueFunction_init pick = Inr tbl"
    and "\<forall>c\<in>set calls. \<forall>s s' rate. c = Update s s' rate \<longrightarrow> reachable s \<and> \<not> is_game_over s"
    and "reachable t" and "is_game_over t"
  shows "run_calls tbl calls (get_state_hash t) = tbl (get_state_hash t)
         \<and> tbl (get_state_hash t)
             = Some (if three_in_a_row (board t) Player_X then Finite 1
                     else if three_in_a_row (board t) Player_O then Finite (- 1) else Finite 0)"
proof -
  have "\<forall>c\<in>set calls. \<forall>s s' rate. c = Update s s' rate \<longrightarrow> get_state_hash s \<noteq> get_state_hash t"
  proof (intro ballI allI impI)
    fix c s s' rate
    assume "c \<in> set calls" "c = Update s s' rate"
    with assms(2) have s: "reachable s" "\<not> is_game_over s" by blast+
    show "get_state_hash s \<noteq> get_state_hash t"
    proof
      assume "get_state_hash s = get_state_hash t"
      then have "board s = board t" by (simp add: get_state_hash_def)
      from reachable_same_board(1) [OF s(1) assms(3) this] s(2) assms(4)
      show False by (simp add: is_game_over_def)
    qed
  qed
  then have "run_calls tbl calls (get_state_hash t) = tbl (get_state_hash t)"
    by (rule run_calls_frame)
  moreover have "tbl (get_state_hash t)
             = Some (if three_in_a_row (board t) Player_X then Finite 1
                     else if three_in_a_row (board t) Player_O then Finite (- 1) else Finite 0)"
    using init_table_value [OF assms(1,3)] by (simp add: get_state_hash_def outcome_value_def)
  ultimately show ?thesis by blast
qed

theorem terminal_values_fixed_witness:
  "\<exists>tbl. ValueFunction_init (\<lambda>n. 0) = Inr tbl
         \<and> is_game_over x_wins_top_row
         \<and> run_calls tbl sample_calls (get_state_hash x_wins_top_row) = Some (Finite 1)"
proof -
  from ValueFunction_init_correct [of "\<lambda>n. 0"] obtain tbl
    where t: "ValueFunction_init (\<lambda>n. 0) = Inr tbl" by blast
  have g: "is_game_over x_wins_top_row"
    by (simp add: x_wins_top_row_eq is_game_over_def)
  have a: "\<not> is_game_over TicTacToe_init"
    by (simp add: is_game_over_def TicTacToe_init_def)
  have b: "\<not> is_game_over (play TicTacToe_init [(0, 0)])"
    by (simp add: is_game_over_def play_def game_defs Let_def)
  have c: "\<forall>c\<in>set sample_calls. \<forall>s s' rate. c = Update s s' rate
              \<longrightarrow> reachable s \<and> \<not> is_game_over s"
    using a b reachable_init reachable_play [OF reachable_init, of "[(0, 0)]"]
    by (simp add: sample_calls_def)
  from terminal_values_fixed [OF t c reachable_x_wins_top_row g] three_x_wins_top_row
  have "run_calls tbl sample_calls (get_state_hash x_wins_top_row) = Some (Finite 1)" by simp
  with t g show ?thesis by blast
qed

end
